theory Spec2Isabelle
  imports Main "HOL-Library.Word" "HOL-Library.Multiset"
begin

unbundle bit_operations_syntax

section \<open>The controller manager of PSMoveService (ControllerManager.cpp)\<close>

text \<open>
  The manager owns a fixed array \<open>m_controllers\<close> of shared pointers to controller
  objects. A pointer is an address; the objects live in a store \<open>heap\<close>, so that
  \<open>controller->setPSMoveID(..)\<close> changes the object and every array cell that points
  to it sees the change. The array has \<open>k_max_psmove_controllers\<close> cells; that
  constant is declared in a header that is not part of the sources, so it is the length of
  the list that models the array. Between two calls every cell points to a controller (the
  constructor fills the array, and a reconnect pass that would leave a null pointer in it
  is an error of the model), so the member array is a list of addresses; inside a reconnect
  pass cells are set to the null pointer, and the pass works on a list of optional
  addresses.

  What the code receives from outside (the clock, the device enumerator, the transport's
  answers to \<open>open\<close> and \<open>readDataIn\<close>) is an argument of the function that
  consumes it. What it hands to the outside (the frames given to the request handler, the
  lines written to the server log) is collected in two lists of the manager state.
\<close>

subsection \<open>Data\<close>

type_synonym addr = nat
type_synonym DeviceIdentity = string

text \<open>Time stamps (\<open>boost::posix_time::ptime\<close>) count microseconds.\<close>

type_synonym ptime = int

text \<open>
  Modelled from the spec: the enum \<open>ButtonState\<close> is declared in PSMoveController.h,
  which is not part of the sources. The code names \<open>Button_DOWN\<close> and
  \<open>Button_PRESSED\<close>; the spec says that two raw states count as "down" and the others
  do not.
\<close>

datatype ButtonState = Button_UP | Button_PRESSED | Button_DOWN | Button_RELEASED

text \<open>
  The pose and the state of a controller. The manager only copies the floating point
  fields of a pose, so a \<open>float\<close> is the 32 bits that represent it and nothing is
  computed with it.
\<close>

type_synonym float = "32 word"

record psmovePosef =
  qw :: float
  qx :: float
  qy :: float
  qz :: float
  px :: float
  py :: float
  pz :: float

record PSMoveState =
  Triangle :: ButtonState
  Circle :: ButtonState
  Cross :: ButtonState
  Square :: ButtonState
  Select :: ButtonState
  Start :: ButtonState
  PS :: ButtonState
  Move :: ButtonState
  Trigger :: int

text \<open>
  Modelled from the spec: the class \<open>PSMoveController\<close> is declared in a header that is
  not part of the sources. The spec's ControllerSession has a positional id, a state
  Closed or Open, an optional bound identity and the last decoded pose and state.
\<close>

record PSMoveController =
  psmove_id :: int
  is_open :: bool
  bound_identity :: "DeviceIdentity option"
  last_pose :: psmovePosef
  last_state :: PSMoveState

datatype ReadDataResult =
  ReadDataResultSuccessNoData | ReadDataResultSuccessNewData | ReadDataResultFailure

text \<open>What the transport delivers when an open controller is read.\<close>

datatype device_reply = NoData | NewData psmovePosef PSMoveState | Failure

text \<open>The logical buttons of \<open>PSMoveProtocol::ControllerDataFrame\<close>.\<close>

datatype ButtonType = TRIANGLE | CIRCLE | CROSS | SQUARE | SELECT | START | PS_BUTTON | MOVE

record ControllerDataFrame =
  df_psmove_id :: int
  df_sequence_num :: "32 word"
  df_isconnected :: bool
  df_iscurrentlytracking :: bool
  df_istrackingenabled :: bool
  df_orientation :: "float \<times> float \<times> float \<times> float"
  df_position :: "float \<times> float \<times> float"
  df_button_down_bitmask :: "32 word"
  df_trigger_value :: int

text \<open>The lines the manager writes to the server log, one constructor per message.\<close>

datatype log_entry =
    Log_hidapi_failed
  | Log_closing_failed_read nat
  | Log_moved nat nat
  | Log_connected nat
  | Log_too_many_controllers
  | Log_closing_not_listed nat

text \<open>The two intervals of the configuration, in milliseconds.\<close>

record ControllerManagerConfig =
  controller_poll_interval :: int
  controller_reconnect_interval :: int

text \<open>
  The members of \<open>ControllerManagerImpl\<close>, the store of the controller objects and the
  two output lists. \<open>m_sequence_number\<close> is a C++ \<open>int\<close>: a 32-bit word, on which
  \<open>++\<close> is the addition of 1 that wraps around (C++ leaves the overflow of a signed
  integer undefined; the word is what the usual targets compute).
\<close>

record ControllerManagerImpl =
  m_config :: "ControllerManagerConfig option"
  m_controllers :: "addr list"
  heap :: "addr \<Rightarrow> PSMoveController"
  m_sequence_number :: "32 word"
  m_last_reconnect_time :: ptime
  m_last_poll_time :: ptime
  published :: "ControllerDataFrame list"
  server_log :: "log_entry list"

definition k_max_psmove_controllers :: "ControllerManagerImpl \<Rightarrow> nat" where
  "k_max_psmove_controllers s = length (m_controllers s)"

definition k_default_controller_reconnect_interval :: int where
  "k_default_controller_reconnect_interval = 1000"

definition k_default_controller_poll_interval :: int where
  "k_default_controller_poll_interval = 2"

subsection \<open>The controller object\<close>

text \<open>
  The class \<open>PSMoveController\<close> is not part of the sources: the manager calls its
  member functions, and each of them is modelled here from the contract the spec gives for
  a controller session (section 4.1).
\<close>

text \<open>
  Modelled from the spec: the default pose and state of a controller that has not read
  anything (the constructor of \<open>PSMoveController\<close> is missing). The spec says that the
  values mean something only while the session is open; every button is up here.
\<close>

definition default_pose :: psmovePosef where
  "default_pose = \<lparr>qw = 0, qx = 0, qy = 0, qz = 0, px = 0, py = 0, pz = 0\<rparr>"

definition default_state :: PSMoveState where
  "default_state = \<lparr>Triangle = Button_UP, Circle = Button_UP, Cross = Button_UP,
     Square = Button_UP, Select = Button_UP, Start = Button_UP, PS = Button_UP,
     Move = Button_UP, Trigger = 0\<rparr>"

text \<open>
  Modelled from the spec: the constructor \<open>PSMoveController(psmove_id)\<close> is missing. A
  session of the pool starts closed, bound to no device, with the id it is given.
\<close>

definition new_PSMoveController :: "int \<Rightarrow> PSMoveController" where
  "new_PSMoveController next_psmove_id =
     \<lparr>psmove_id = next_psmove_id, is_open = False, bound_identity = None,
      last_pose = default_pose, last_state = default_state\<rparr>"

text \<open>
  Modelled from the spec: the accessors \<open>getIsOpen\<close>, \<open>getPSMoveID\<close>,
  \<open>setPSMoveID\<close>, \<open>getPose\<close> and \<open>getState\<close> are missing. They read the state, the
  id, the last pose and the last state of the session, and \<open>setPSMoveID\<close> relabels it.
\<close>

definition getIsOpen :: "PSMoveController \<Rightarrow> bool" where
  "getIsOpen c = is_open c"

definition getPSMoveID :: "PSMoveController \<Rightarrow> int" where
  "getPSMoveID c = psmove_id c"

definition setPSMoveID :: "int \<Rightarrow> PSMoveController \<Rightarrow> PSMoveController" where
  "setPSMoveID new_id c = c\<lparr>psmove_id := new_id\<rparr>"

definition getPose :: "PSMoveController \<Rightarrow> psmovePosef" where
  "getPose c = last_pose c"

definition getState :: "PSMoveController \<Rightarrow> PSMoveState" where
  "getState c = last_state c"

text \<open>
  Modelled from the spec: \<open>matchesDeviceEnumerator\<close> is missing. The spec matches a
  session with an enumerated device by the identity the session is bound to.
\<close>

definition matchesDeviceEnumerator :: "PSMoveController \<Rightarrow> DeviceIdentity \<Rightarrow> bool" where
  "matchesDeviceEnumerator c enumerator = (bound_identity c = Some enumerator)"

text \<open>
  Modelled from the spec: \<open>PSMoveController::open\<close> is missing. It attempts to bind the
  session to the enumerated device through the transport: when the transport succeeds the
  session is open and bound to the device, when it fails the session stays as it is. The
  transport's answer is the argument \<open>transport_ok\<close>; the result says whether the open
  succeeded.
\<close>

definition open_controller ::
  "bool \<Rightarrow> DeviceIdentity \<Rightarrow> PSMoveController \<Rightarrow> bool \<times> PSMoveController" where
  "open_controller transport_ok enumerator c =
     (if transport_ok
      then (True, c\<lparr>is_open := True, bound_identity := Some enumerator\<rparr>)
      else (False, c))"

text \<open>
  Modelled from the spec: \<open>PSMoveController::close\<close> is missing. It sets the session to
  closed and clears the bound identity; on a closed session it changes nothing more.
\<close>

definition close_controller :: "PSMoveController \<Rightarrow> PSMoveController" where
  "close_controller c = c\<lparr>is_open := False, bound_identity := None\<rparr>"

text \<open>
  Modelled from the spec: \<open>PSMoveController::readDataIn\<close> is missing. It has one of three
  outcomes; with new data it stores the decoded pose and state in the session; on a failure
  it does not close the session (the poll pass does). What the transport delivers is the
  argument \<open>reply\<close>.
\<close>

definition readDataIn :: "device_reply \<Rightarrow> PSMoveController \<Rightarrow> ReadDataResult \<times> PSMoveController" where
  "readDataIn reply c =
     (case reply of
        NoData \<Rightarrow> (ReadDataResultSuccessNoData, c)
      | NewData p st \<Rightarrow> (ReadDataResultSuccessNewData, c\<lparr>last_pose := p, last_state := st\<rparr>)
      | Failure \<Rightarrow> (ReadDataResultFailure, c))"

subsection \<open>Construction and start\<close>

text \<open>
  The constructor allocates one controller per cell, with the cell's index as its id, and
  starts the sequence number at 0. The pool objects get the addresses 0, 1, ... The two
  time stamps are default constructed \<open>ptime\<close> values, whose class belongs to a library
  outside the sources; the spec initialises both to the start time, which is the argument
  \<open>t0\<close>. The configuration pointer is null until \<open>startup\<close>.
\<close>

definition new_ControllerManagerImpl :: "nat \<Rightarrow> ptime \<Rightarrow> ControllerManagerImpl" where
  "new_ControllerManagerImpl k t0 =
     \<lparr>m_config = None,
      m_controllers = [0..<k],
      heap = (\<lambda>controller_index. new_PSMoveController (int controller_index)),
      m_sequence_number = 0,
      m_last_reconnect_time = t0,
      m_last_poll_time = t0,
      published = [],
      server_log = []\<rparr>"

text \<open>
  \<open>startup\<close> installs the loaded configuration and initialises HIDAPI; \<open>hid_init_ok\<close>
  says whether \<open>hid_init\<close> succeeded. When it did not, the error line is written and
  the result is false.
\<close>

definition startup ::
  "ControllerManagerConfig \<Rightarrow> bool \<Rightarrow> ControllerManagerImpl \<Rightarrow> bool \<times> ControllerManagerImpl" where
  "startup loaded hid_init_ok s =
     (if hid_init_ok then (True, s\<lparr>m_config := Some loaded\<rparr>)
      else (False, s\<lparr>m_config := Some loaded,
                     server_log := server_log s @ [Log_hidapi_failed]\<rparr>))"

subsection \<open>Publishing a data frame\<close>

definition SET_BUTTON_BIT :: "32 word \<Rightarrow> nat \<Rightarrow> ButtonState \<Rightarrow> 32 word" where
  "SET_BUTTON_BIT bitmask bit_index button_state =
     bitmask OR (if button_state = Button_DOWN \<or> button_state = Button_PRESSED
                 then push_bit bit_index 1 else 0)"

text \<open>
  Lines 360 to 368: the local variable \<open>button_bitmask\<close>. The bit indices are the values
  of an enum of the protocol, which is generated code outside the sources; they are the
  argument \<open>bit_index\<close>.
\<close>

definition button_bitmask :: "(ButtonType \<Rightarrow> nat) \<Rightarrow> PSMoveState \<Rightarrow> 32 word" where
  "button_bitmask bit_index controller_state =
     SET_BUTTON_BIT
      (SET_BUTTON_BIT
        (SET_BUTTON_BIT
          (SET_BUTTON_BIT
            (SET_BUTTON_BIT
              (SET_BUTTON_BIT
                (SET_BUTTON_BIT
                  (SET_BUTTON_BIT 0 (bit_index TRIANGLE) (Triangle controller_state))
                  (bit_index CIRCLE) (Circle controller_state))
                (bit_index CROSS) (Cross controller_state))
              (bit_index SQUARE) (Square controller_state))
            (bit_index SELECT) (Select controller_state))
          (bit_index START) (Start controller_state))
        (bit_index PS_BUTTON) (PS controller_state))
      (bit_index MOVE) (Move controller_state)"

text \<open>
  The frame built by \<open>publish_controller_data_frame\<close>. Line 369 stores the literal 0 as
  the frame's bitmask: the local \<open>button_bitmask\<close> above is computed and then not used,
  so the frame does not depend on the bit indices.
\<close>

definition make_data_frame :: "32 word \<Rightarrow> PSMoveController \<Rightarrow> ControllerDataFrame" where
  "make_data_frame sequence_number controller =
     (let controller_pose = getPose controller;
          controller_state = getState controller
      in \<lparr>df_psmove_id = getPSMoveID controller,
          df_sequence_num = sequence_number,
          df_isconnected = True,
          df_iscurrentlytracking = False,
          df_istrackingenabled = True,
          df_orientation = (qw controller_pose, qx controller_pose, qy controller_pose,
                            qz controller_pose),
          df_position = (px controller_pose, py controller_pose, pz controller_pose),
          df_button_down_bitmask = 0,
          df_trigger_value = Trigger controller_state\<rparr>)"

definition publish_controller_data_frame :: "addr \<Rightarrow> ControllerManagerImpl \<Rightarrow> ControllerManagerImpl" where
  "publish_controller_data_frame controller s =
     s\<lparr>published := published s @ [make_data_frame (m_sequence_number s) (heap s controller)],
       m_sequence_number := m_sequence_number s + 1\<rparr>"

subsection \<open>Polling\<close>

text \<open>
  One iteration of the loop of \<open>poll_open_controllers\<close>; \<open>replies controller_index\<close>
  is what the transport delivers for that cell in this pass.
\<close>

definition poll_controller ::
  "(nat \<Rightarrow> device_reply) \<Rightarrow> nat \<Rightarrow> ControllerManagerImpl \<Rightarrow> ControllerManagerImpl" where
  "poll_controller replies controller_index s =
     (let controller = m_controllers s ! controller_index in
      if getIsOpen (heap s controller) then
        (case readDataIn (replies controller_index) (heap s controller) of
           (result, c) \<Rightarrow>
             (let s1 = s\<lparr>heap := (heap s)(controller := c)\<rparr> in
              case result of
                ReadDataResultSuccessNoData \<Rightarrow> s1
              | ReadDataResultSuccessNewData \<Rightarrow> publish_controller_data_frame controller s1
              | ReadDataResultFailure \<Rightarrow>
                  s1\<lparr>server_log := server_log s1 @ [Log_closing_failed_read controller_index],
                     heap := (heap s1)(controller := close_controller (heap s1 controller))\<rparr>))
      else s)"

definition poll_open_controllers ::
  "(nat \<Rightarrow> device_reply) \<Rightarrow> ControllerManagerImpl \<Rightarrow> ControllerManagerImpl" where
  "poll_open_controllers replies s =
     fold (poll_controller replies) [0..<k_max_psmove_controllers s] s"

subsection \<open>Reconnecting\<close>

text \<open>
  The variables of \<open>update_connected_controllers\<close>: the member array, whose cells are
  set to the null pointer as controllers are moved out, the local array
  \<open>temp_controllers_list\<close>, the store, the counter \<open>new_controller_index\<close> and the log
  lines written so far in this pass.
\<close>

record reconnect_state =
  rc_controllers :: "addr option list"
  rc_temp :: "addr option list"
  rc_heap :: "addr \<Rightarrow> PSMoveController"
  rc_new_index :: nat
  rc_log :: "log_entry list"

text \<open>
  Both searches return the first index that satisfies the test, or \<open>None\<close> for the
  source's \<open>-1\<close>.
\<close>

definition find_open_controller_index ::
  "addr option list \<Rightarrow> (addr \<Rightarrow> PSMoveController) \<Rightarrow> DeviceIdentity \<Rightarrow> nat option" where
  "find_open_controller_index controllers h enumerator =
     List.find (\<lambda>controller_index.
        case controllers ! controller_index of
          None \<Rightarrow> False
        | Some controller \<Rightarrow>
            getIsOpen (h controller) \<and> matchesDeviceEnumerator (h controller) enumerator)
       [0..<length controllers]"

definition find_first_closed_controller_index ::
  "addr option list \<Rightarrow> (addr \<Rightarrow> PSMoveController) \<Rightarrow> nat option" where
  "find_first_closed_controller_index controllers h =
     List.find (\<lambda>controller_index.
        case controllers ! controller_index of
          None \<Rightarrow> False
        | Some controller \<Rightarrow> \<not> getIsOpen (h controller))
       [0..<length controllers]"

text \<open>
  A store into \<open>temp_controllers_list\<close>. The C++ array has no bounds check; a store
  outside the array is the result \<open>None\<close>, so that "never out of bounds" is a theorem
  and not an assumption.
\<close>

definition store_temp :: "nat \<Rightarrow> addr \<Rightarrow> addr option list \<Rightarrow> addr option list option" where
  "store_temp i controller temp =
     (if i < length temp then Some (temp[i := Some controller]) else None)"

text \<open>
  The store of the null pointer into a cell of the member array, with the same check.
\<close>

definition clear_cell :: "nat \<Rightarrow> addr option list \<Rightarrow> addr option list option" where
  "clear_cell i controllers =
     (if i < length controllers then Some (controllers[i := None]) else None)"

text \<open>
  One iteration of the loop over the device enumerator (step 1). \<open>open_ok p\<close> says
  whether the transport opens the device at enumeration position \<open>p\<close> in this pass; in
  this loop the position equals \<open>new_controller_index\<close>. The result is \<open>None\<close> for a
  store out of bounds or a null pointer dereference, and otherwise the new state with
  \<open>True\<close> when the loop goes on and \<open>False\<close> after \<open>break\<close>.
\<close>

definition enumerator_step ::
  "(nat \<Rightarrow> bool) \<Rightarrow> DeviceIdentity \<Rightarrow> reconnect_state \<Rightarrow> (bool \<times> reconnect_state) option" where
  "enumerator_step open_ok enumerator r =
     (let new_controller_index = rc_new_index r in
      case find_open_controller_index (rc_controllers r) (rc_heap r) enumerator of
        Some controller_index \<Rightarrow>
          (case rc_controllers r ! controller_index of
             None \<Rightarrow> None
           | Some existingController \<Rightarrow>
               (let r1 = (if new_controller_index \<noteq> controller_index
                          then r\<lparr>rc_heap := (rc_heap r)(existingController :=
                                     setPSMoveID (int new_controller_index)
                                       (rc_heap r existingController)),
                                 rc_log := rc_log r @
                                     [Log_moved controller_index new_controller_index]\<rparr>
                          else r)
                in case store_temp new_controller_index existingController (rc_temp r1) of
                     None \<Rightarrow> None
                   | Some temp \<Rightarrow>
                       (case clear_cell controller_index (rc_controllers r1) of
                          None \<Rightarrow> None
                        | Some controllers \<Rightarrow>
                            Some (True,
                              r1\<lparr>rc_temp := temp,
                                 rc_controllers := controllers,
                                 rc_new_index := new_controller_index + 1\<rparr>))))
      | None \<Rightarrow>
          (case find_first_closed_controller_index (rc_controllers r) (rc_heap r) of
             Some controller_index \<Rightarrow>
               (case rc_controllers r ! controller_index of
                  None \<Rightarrow> None
                | Some existingController \<Rightarrow>
                    (let h1 = (rc_heap r)(existingController :=
                                 setPSMoveID (int new_controller_index)
                                   (rc_heap r existingController))
                     in case store_temp new_controller_index existingController (rc_temp r) of
                          None \<Rightarrow> None
                        | Some temp \<Rightarrow>
                            (case clear_cell controller_index (rc_controllers r) of
                               None \<Rightarrow> None
                             | Some controllers \<Rightarrow>
                                 (case open_controller (open_ok new_controller_index)
                                         enumerator (h1 existingController) of
                                    (opened, c) \<Rightarrow>
                                      Some (True,
                                        r\<lparr>rc_temp := temp,
                                          rc_controllers := controllers,
                                          rc_heap := h1(existingController := c),
                                          rc_log :=
                                            (if opened
                                             then rc_log r @ [Log_connected controller_index]
                                             else rc_log r),
                                          rc_new_index := new_controller_index + 1\<rparr>)))))
           | None \<Rightarrow>
               Some (False, r\<lparr>rc_log := rc_log r @ [Log_too_many_controllers]\<rparr>)))"

fun enumerate_devices ::
  "(nat \<Rightarrow> bool) \<Rightarrow> DeviceIdentity list \<Rightarrow> reconnect_state \<Rightarrow> reconnect_state option" where
  "enumerate_devices open_ok [] r = Some r"
| "enumerate_devices open_ok (enumerator # rest) r =
     (case enumerator_step open_ok enumerator r of
        None \<Rightarrow> None
      | Some (go_on, r') \<Rightarrow> if go_on then enumerate_devices open_ok rest r' else Some r')"

text \<open>One iteration of the loop over the old array (step 2).\<close>

definition remaining_step :: "nat \<Rightarrow> reconnect_state \<Rightarrow> reconnect_state option" where
  "remaining_step existing_controller_index r =
     (case rc_controllers r ! existing_controller_index of
        None \<Rightarrow> Some r
      | Some existingController \<Rightarrow>
          (let was_open = getIsOpen (rc_heap r existingController);
               h1 = (if was_open
                     then (rc_heap r)(existingController :=
                            close_controller (rc_heap r existingController))
                     else rc_heap r);
               log1 = (if was_open
                       then rc_log r @ [Log_closing_not_listed existing_controller_index]
                       else rc_log r);
               h2 = h1(existingController :=
                      setPSMoveID (int (rc_new_index r)) (h1 existingController))
           in case store_temp (rc_new_index r) existingController (rc_temp r) of
                None \<Rightarrow> None
              | Some temp \<Rightarrow>
                  (case clear_cell existing_controller_index (rc_controllers r) of
                     None \<Rightarrow> None
                   | Some controllers \<Rightarrow>
                       Some (r\<lparr>rc_heap := h2,
                               rc_log := log1,
                               rc_temp := temp,
                               rc_new_index := rc_new_index r + 1,
                               rc_controllers := controllers\<rparr>))))"

fun collect_remaining :: "nat list \<Rightarrow> reconnect_state \<Rightarrow> reconnect_state option" where
  "collect_remaining [] r = Some r"
| "collect_remaining (i # is) r =
     (case remaining_step i r of None \<Rightarrow> None | Some r' \<Rightarrow> collect_remaining is r')"

text \<open>
  The whole pass. Step 3 copies the temporary array over the member array. The manager
  dereferences every cell of the member array in the next pass, so a null pointer left in
  it is an error here.
\<close>

definition start_reconnect :: "ControllerManagerImpl \<Rightarrow> reconnect_state" where
  "start_reconnect s =
     \<lparr>rc_controllers = map Some (m_controllers s),
      rc_temp = replicate (k_max_psmove_controllers s) None,
      rc_heap = heap s,
      rc_new_index = 0,
      rc_log = []\<rparr>"

definition reconnect_steps ::
  "DeviceIdentity list \<Rightarrow> (nat \<Rightarrow> bool) \<Rightarrow> ControllerManagerImpl \<Rightarrow> reconnect_state option" where
  "reconnect_steps enumerator open_ok s =
     (case enumerate_devices open_ok enumerator (start_reconnect s) of
        None \<Rightarrow> None
      | Some r1 \<Rightarrow> collect_remaining [0..<k_max_psmove_controllers s] r1)"

definition update_connected_controllers ::
  "DeviceIdentity list \<Rightarrow> (nat \<Rightarrow> bool) \<Rightarrow> ControllerManagerImpl \<Rightarrow> ControllerManagerImpl option" where
  "update_connected_controllers enumerator open_ok s =
     (case reconnect_steps enumerator open_ok s of
        None \<Rightarrow> None
      | Some r2 \<Rightarrow>
          (let copied = map (\<lambda>controller_index. rc_temp r2 ! controller_index)
                          [0..<k_max_psmove_controllers s]
           in if None \<in> set copied then None
              else Some (s\<lparr>m_controllers := map the copied,
                           heap := rc_heap r2,
                           server_log := server_log s @ rc_log r2\<rparr>)))"

subsection \<open>The scheduler\<close>

text \<open>
  \<open>time_duration::total_milliseconds\<close>: the whole milliseconds of a duration in
  microseconds, rounded towards zero.
\<close>

definition total_milliseconds :: "int \<Rightarrow> int" where
  "total_milliseconds d = (if 0 \<le> d then d div 1000 else - ((- d) div 1000))"

text \<open>
  \<open>update\<close>: \<open>now\<close> is the clock's answer; the other arguments are what the two passes
  receive when they run. The configuration pointer is null before \<open>startup\<close>, and
  \<open>update\<close> dereferences it.
\<close>

definition update ::
  "ptime \<Rightarrow> (nat \<Rightarrow> device_reply) \<Rightarrow> DeviceIdentity list \<Rightarrow> (nat \<Rightarrow> bool) \<Rightarrow>
   ControllerManagerImpl \<Rightarrow> ControllerManagerImpl option" where
  "update now replies enumerator open_ok s =
     (case m_config s of
        None \<Rightarrow> None
      | Some config \<Rightarrow>
          (let s1 = (if total_milliseconds (now - m_last_poll_time s)
                          \<ge> controller_poll_interval config
                     then (poll_open_controllers replies s)\<lparr>m_last_poll_time := now\<rparr>
                     else s)
           in if total_milliseconds (now - m_last_reconnect_time s1)
                   \<ge> controller_reconnect_interval config
              then (case update_connected_controllers enumerator open_ok s1 of
                      None \<Rightarrow> None
                    | Some s2 \<Rightarrow> Some (s2\<lparr>m_last_reconnect_time := now\<rparr>))
              else Some s1))"

subsection \<open>Rumble and pose reset\<close>

definition setControllerRumble ::
  "int \<Rightarrow> int \<Rightarrow> ControllerManagerImpl \<Rightarrow> bool \<times> ControllerManagerImpl" where
  "setControllerRumble for_psmove_id rumble_amount s = (False, s)"

definition resetPose :: "int \<Rightarrow> ControllerManagerImpl \<Rightarrow> bool \<times> ControllerManagerImpl" where
  "resetPose for_psmove_id s = (False, s)"

text \<open>The public class forwards both calls to the implementation object.\<close>

definition ControllerManager_setControllerRumble ::
  "int \<Rightarrow> int \<Rightarrow> ControllerManagerImpl \<Rightarrow> bool \<times> ControllerManagerImpl" where
  "ControllerManager_setControllerRumble for_psmove_id rumble_amount s =
     setControllerRumble for_psmove_id rumble_amount s"

definition ControllerManager_resetPose ::
  "int \<Rightarrow> ControllerManagerImpl \<Rightarrow> bool \<times> ControllerManagerImpl" where
  "ControllerManager_resetPose for_psmove_id s = resetPose for_psmove_id s"

subsection \<open>The service loop\<close>

text \<open>
  The service calls \<open>update\<close> over and over. One call receives the clock's value, the
  transport's replies to the reads, the enumerator's snapshot and the transport's answers
  to the open attempts. The loop ends with \<open>None\<close> as soon as one call does.
\<close>

type_synonym tick = "ptime \<times> (nat \<Rightarrow> device_reply) \<times> DeviceIdentity list \<times> (nat \<Rightarrow> bool)"

fun service_loop :: "tick list \<Rightarrow> ControllerManagerImpl \<Rightarrow> ControllerManagerImpl option" where
  "service_loop [] s = Some s"
| "service_loop ((now, replies, enumerator, open_ok) # ticks) s =
     (case update now replies enumerator open_ok s of
        None \<Rightarrow> None
      | Some s' \<Rightarrow> service_loop ticks s')"

section \<open>Notions used in the statements\<close>

text \<open>The pointers of an array that are not null, in the order of the cells.\<close>

fun present :: "'a option list \<Rightarrow> 'a list" where
  "present [] = []"
| "present (None # xs) = present xs"
| "present (Some x # xs) = x # present xs"

text \<open>
  The loop over the enumerator when no iteration leaves it: \<open>enumerate_all\<close> is the
  state after every device of the list has been given a position, and \<open>None\<close> when an
  iteration ends the loop early. With it "the pass reaches the device \<open>e\<close> after the
  devices \<open>before\<close>" is \<open>enumerate_all open_ok before r0 = Some r\<close>.
\<close>

fun enumerate_all ::
  "(nat \<Rightarrow> bool) \<Rightarrow> DeviceIdentity list \<Rightarrow> reconnect_state \<Rightarrow> reconnect_state option" where
  "enumerate_all open_ok [] r = Some r"
| "enumerate_all open_ok (enumerator # rest) r =
     (case enumerator_step open_ok enumerator r of
        None \<Rightarrow> None
      | Some (go_on, r') \<Rightarrow> if go_on then enumerate_all open_ok rest r' else None)"

text \<open>
  The invariant of a pass, in either loop, over an array of \<open>k\<close> cells that held the
  pointers \<open>M\<close>: the first \<open>new_controller_index\<close> cells of the temporary array are
  filled and the others are null, each pointer is in exactly one of the two arrays, and
  the free cells of the temporary array are as many as the pointers still to move.
\<close>

definition rc_inv :: "nat \<Rightarrow> addr multiset \<Rightarrow> reconnect_state \<Rightarrow> bool" where
  "rc_inv k M r \<longleftrightarrow>
     length (rc_controllers r) = k \<and>
     rc_new_index r + length (present (rc_controllers r)) = k \<and>
     (\<exists>placed. length placed = rc_new_index r \<and>
        rc_temp r = map Some placed @ replicate (k - rc_new_index r) None \<and>
        mset placed + mset (present (rc_controllers r)) = M)"

text \<open>What a pass leaves untouched in every controller: the last decoded pose and state.\<close>

definition same_payload :: "(addr \<Rightarrow> PSMoveController) \<Rightarrow> (addr \<Rightarrow> PSMoveController) \<Rightarrow> bool" where
  "same_payload h h' \<longleftrightarrow>
     (\<forall>a. last_pose (h' a) = last_pose (h a) \<and> last_state (h' a) = last_state (h a))"

text \<open>
  What an iteration of either loop may change: it does not lower the counter, it keeps
  the cells of the temporary array below the counter, it changes only controllers that are
  still in the member array, it adds no pointer to the member array, and it only appends
  to the log.
\<close>

definition step_frame :: "reconnect_state \<Rightarrow> reconnect_state \<Rightarrow> bool" where
  "step_frame r r' \<longleftrightarrow>
     rc_new_index r \<le> rc_new_index r' \<and>
     (\<forall>p<rc_new_index r. rc_temp r' ! p = rc_temp r ! p) \<and>
     (\<forall>a. Some a \<notin> set (rc_controllers r) \<longrightarrow> rc_heap r' a = rc_heap r a) \<and>
     (\<forall>a. Some a \<in> set (rc_controllers r') \<longrightarrow> Some a \<in> set (rc_controllers r)) \<and>
     (\<exists>lines. rc_log r' = rc_log r @ lines)"


subsection \<open>The two tests of the scheduler\<close>

text \<open>
  The two conditions in the words of the spec: the time from the stored time stamp to
  \<open>now\<close> is at least the interval. Time stamps count microseconds and the intervals
  are milliseconds.
\<close>

definition poll_interval_elapsed ::
  "ControllerManagerConfig \<Rightarrow> ptime \<Rightarrow> ControllerManagerImpl \<Rightarrow> bool" where
  "poll_interval_elapsed config now s \<longleftrightarrow>
     1000 * controller_poll_interval config \<le> now - m_last_poll_time s"

definition reconnect_interval_elapsed ::
  "ControllerManagerConfig \<Rightarrow> ptime \<Rightarrow> ControllerManagerImpl \<Rightarrow> bool" where
  "reconnect_interval_elapsed config now s \<longleftrightarrow>
     1000 * controller_reconnect_interval config \<le> now - m_last_reconnect_time s"

text \<open>
  The two tests as \<open>update\<close> writes them, on the whole milliseconds of the difference.
  They are names for the lemmas about \<open>update\<close>.
\<close>

definition poll_guard :: "ControllerManagerConfig \<Rightarrow> ptime \<Rightarrow> ControllerManagerImpl \<Rightarrow> bool" where
  "poll_guard config now s \<longleftrightarrow>
     controller_poll_interval config \<le> total_milliseconds (now - m_last_poll_time s)"

definition reconnect_guard :: "ControllerManagerConfig \<Rightarrow> ptime \<Rightarrow> ControllerManagerImpl \<Rightarrow> bool" where
  "reconnect_guard config now s \<longleftrightarrow>
     controller_reconnect_interval config \<le> total_milliseconds (now - m_last_reconnect_time s)"

definition stamp_poll :: "ptime \<Rightarrow> ControllerManagerImpl \<Rightarrow> ControllerManagerImpl" where
  "stamp_poll now s = s\<lparr>m_last_poll_time := now\<rparr>"

definition stamp_reconnect :: "ptime \<Rightarrow> ControllerManagerImpl \<Rightarrow> ControllerManagerImpl" where
  "stamp_reconnect now s = s\<lparr>m_last_reconnect_time := now\<rparr>"

text \<open>
  The sequence numbers of the frames published so far are 0, 1, 2, ... in the order of
  publication, and the counter is the number of frames.
\<close>

definition seq_ok :: "ControllerManagerImpl \<Rightarrow> bool" where
  "seq_ok s \<longleftrightarrow>
     m_sequence_number s = of_nat (length (published s)) \<and>
     map df_sequence_num (published s) = map of_nat [0..<length (published s)]"

text \<open>
  What one poll pass makes of a controller, given the transport's reply to its read.
\<close>

definition poll_result :: "device_reply \<Rightarrow> PSMoveController \<Rightarrow> PSMoveController" where
  "poll_result reply c =
     (if is_open c
      then (case reply of
              NoData \<Rightarrow> c
            | NewData p st \<Rightarrow> c\<lparr>last_pose := p, last_state := st\<rparr>
            | Failure \<Rightarrow> close_controller c)
      else c)"

text \<open>
  A manager is settled for a snapshot when its first cells hold open controllers bound to
  the devices of the snapshot, in the order of the snapshot, and the other cells hold
  closed controllers that carry the index of their cell as id.
\<close>

definition settled :: "DeviceIdentity list \<Rightarrow> ControllerManagerImpl \<Rightarrow> bool" where
  "settled es s \<longleftrightarrow>
     length es \<le> length (m_controllers s) \<and>
     (\<forall>p<length (m_controllers s).
        if p < length es
        then is_open (heap s (m_controllers s ! p)) \<and>
             bound_identity (heap s (m_controllers s ! p)) = Some (es ! p)
        else \<not> is_open (heap s (m_controllers s ! p)) \<and>
             psmove_id (heap s (m_controllers s ! p)) = int p)"

text \<open>The same for the cells of the temporary array that a pass has filled so far.\<close>

definition cells_settled :: "DeviceIdentity list \<Rightarrow> reconnect_state \<Rightarrow> bool" where
  "cells_settled es r \<longleftrightarrow>
     (\<forall>p<rc_new_index r. \<exists>a. rc_temp r ! p = Some a \<and>
        (if p < length es
         then is_open (rc_heap r a) \<and> bound_identity (rc_heap r a) = Some (es ! p)
         else \<not> is_open (rc_heap r a) \<and> psmove_id (rc_heap r a) = int p))"

text \<open>
  The state of a pass over a settled manager after \<open>p\<close> cells: the first \<open>p\<close> pointers
  have moved to the same cells of the temporary array and nothing else has changed.
\<close>

definition moved_in_place :: "ControllerManagerImpl \<Rightarrow> nat \<Rightarrow> reconnect_state" where
  "moved_in_place s p =
     \<lparr>rc_controllers = replicate p None @ drop p (map Some (m_controllers s)),
      rc_temp = map Some (take p (m_controllers s)) @ replicate (length (m_controllers s) - p) None,
      rc_heap = heap s,
      rc_new_index = p,
      rc_log = []\<rparr>"

text \<open>
  The cell in which the open controller bound to the device \<open>e\<close> sits before a pass.
\<close>

definition old_cell :: "ControllerManagerImpl \<Rightarrow> DeviceIdentity \<Rightarrow> nat" where
  "old_cell s e = the (find_open_controller_index (map Some (m_controllers s)) (heap s) e)"

text \<open>
  The "moved" lines of a pass that only reorders: one for each of the first \<open>p\<close>
  positions of the snapshot whose controller sat in another cell, in the order of the
  snapshot.
\<close>

definition moved_lines :: "ControllerManagerImpl \<Rightarrow> DeviceIdentity list \<Rightarrow> nat \<Rightarrow> log_entry list" where
  "moved_lines s es p =
     map (\<lambda>q. Log_moved (old_cell s (es ! q)) q)
       (filter (\<lambda>q. old_cell s (es ! q) \<noteq> q) [0..<p])"

text \<open>
  The state of a pass that only reorders, after \<open>p\<close> devices: the cells of the open
  controllers bound to these devices are null and the other cells are as before, the
  controllers still in the member array are untouched, position \<open>q < p\<close> of the temporary
  array holds the controller bound to device \<open>q\<close>, changed in its id only, and the log
  holds the "moved" lines.
\<close>

definition reorder_inv ::
  "ControllerManagerImpl \<Rightarrow> DeviceIdentity list \<Rightarrow> nat \<Rightarrow> reconnect_state \<Rightarrow> bool" where
  "reorder_inv s es p r \<longleftrightarrow>
     rc_new_index r = p \<and>
     length (rc_controllers r) = length (m_controllers s) \<and>
     (\<forall>i<length (m_controllers s).
        rc_controllers r ! i =
          (if is_open (heap s (m_controllers s ! i)) \<and>
              bound_identity (heap s (m_controllers s ! i)) \<in> Some ` set (take p es)
           then None else Some (m_controllers s ! i))) \<and>
     (\<forall>i<length (m_controllers s).
        rc_controllers r ! i \<noteq> None \<longrightarrow>
        rc_heap r (m_controllers s ! i) = heap s (m_controllers s ! i)) \<and>
     (\<forall>q<p. rc_temp r ! q = Some (m_controllers s ! old_cell s (es ! q)) \<and>
        rc_heap r (m_controllers s ! old_cell s (es ! q))
          = (heap s (m_controllers s ! old_cell s (es ! q)))\<lparr>psmove_id := int q\<rparr>) \<and>
     rc_log r = moved_lines s es p"

text \<open>Every controller still in the member array is closed.\<close>

definition rest_closed :: "reconnect_state \<Rightarrow> bool" where
  "rest_closed r \<longleftrightarrow> (\<forall>a. Some a \<in> set (rc_controllers r) \<longrightarrow> \<not> is_open (rc_heap r a))"

text \<open>
  The devices bound by the open controllers of the manager are, up to their order, the
  devices of the snapshot.
\<close>

definition same_devices :: "DeviceIdentity list \<Rightarrow> ControllerManagerImpl \<Rightarrow> bool" where
  "same_devices es s \<longleftrightarrow>
     mset (map (\<lambda>a. bound_identity (heap s a))
            (filter (\<lambda>a. is_open (heap s a)) (m_controllers s)))
       = mset (map Some es)"

subsection \<open>Concrete inputs\<close>

definition example_config :: ControllerManagerConfig where
  "example_config =
     \<lparr>controller_poll_interval = k_default_controller_poll_interval,
      controller_reconnect_interval = k_default_controller_reconnect_interval\<rparr>"

text \<open>A started manager with \<open>k\<close> closed controllers.\<close>

definition started_manager :: "nat \<Rightarrow> ControllerManagerImpl" where
  "started_manager k = snd (startup example_config True (new_ControllerManagerImpl k 0))"

definition opens_all :: "nat \<Rightarrow> bool" where
  "opens_all p = True"

definition opens_none :: "nat \<Rightarrow> bool" where
  "opens_none p = False"

text \<open>The bit indices 0 to 7, in the order of the source's eight macro calls.\<close>

fun example_bit_index :: "ButtonType \<Rightarrow> nat" where
  "example_bit_index TRIANGLE = 0"
| "example_bit_index CIRCLE = 1"
| "example_bit_index CROSS = 2"
| "example_bit_index SQUARE = 3"
| "example_bit_index SELECT = 4"
| "example_bit_index START = 5"
| "example_bit_index PS_BUTTON = 6"
| "example_bit_index MOVE = 7"

definition triangle_down :: PSMoveState where
  "triangle_down = default_state\<lparr>Triangle := Button_DOWN\<rparr>"

text \<open>A manager with one controller, open and bound to the device \<open>''A''\<close>.\<close>

definition one_open_manager :: ControllerManagerImpl where
  "one_open_manager =
     (started_manager 1)\<lparr>heap := (\<lambda>a. (new_PSMoveController (int a))
        \<lparr>is_open := True, bound_identity := Some ''A''\<rparr>)\<rparr>"

definition replies_triangle_down :: "nat \<Rightarrow> device_reply" where
  "replies_triangle_down controller_index = NewData default_pose triangle_down"

text \<open>
  A manager with two open controllers, bound to \<open>''A''\<close> and \<open>''B''\<close>, and a pass in
  which the read of the first fails and the read of the second delivers new data.
\<close>

definition two_open_manager :: ControllerManagerImpl where
  "two_open_manager =
     (started_manager 2)\<lparr>heap := (\<lambda>a. (new_PSMoveController (int a))
        \<lparr>is_open := True, bound_identity := Some (if a = 0 then ''A'' else ''B'')\<rparr>)\<rparr>"

definition replies_first_fails :: "nat \<Rightarrow> device_reply" where
  "replies_first_fails controller_index =
     (if controller_index = 0 then Failure else NewData default_pose triangle_down)"

text \<open>The manager after one pass over two closed controllers with the snapshot \<open>[''A'']\<close>.\<close>

definition after_first_pass :: ControllerManagerImpl where
  "after_first_pass = the (update_connected_controllers [''A''] opens_all (started_manager 2))"

text \<open>
  A configuration with the poll interval 0, and a manager with one open controller whose
  two time stamps are one millisecond after the start.
\<close>

definition zero_poll_config :: ControllerManagerConfig where
  "zero_poll_config = \<lparr>controller_poll_interval = 0, controller_reconnect_interval = 1000\<rparr>"

definition stamped_manager :: ControllerManagerImpl where
  "stamped_manager =
     one_open_manager\<lparr>m_config := Some zero_poll_config,
        m_last_reconnect_time := 1000, m_last_poll_time := 1000\<rparr>"

text \<open>
  A service with one controller and the poll interval 0, and one call of \<open>update\<close>: the
  clock is one second after the start, the device \<open>''A''\<close> is attached and opens, and an
  open controller delivers new data. The first such call connects the controller; each
  later one polls it and publishes a frame.
\<close>

definition one_controller_service :: ControllerManagerImpl where
  "one_controller_service = snd (startup zero_poll_config True (new_ControllerManagerImpl 1 0))"

definition busy_tick :: tick where
  "busy_tick = (1000000, replies_triangle_down, [''A''], opens_all)"

text \<open>
  The service above after its first call and \<open>n\<close> further ones: the controller is open,
  both time stamps are the clock's value, and \<open>n\<close> frames have been published with the
  numbers 0, 1, 2, ... of the 32-bit counter.
\<close>

definition busy :: "nat \<Rightarrow> ControllerManagerImpl \<Rightarrow> bool" where
  "busy n s \<longleftrightarrow>
     m_config s = Some zero_poll_config \<and> m_controllers s = [0] \<and> is_open (heap s 0) \<and>
     m_last_poll_time s = 1000000 \<and> m_last_reconnect_time s = 1000000 \<and>
     seq_ok s \<and> length (published s) = n"

section \<open>Lemmas\<close>

subsection \<open>Arrays of pointers\<close>

lemma present_map_Some: "present (map Some xs) = xs"
  by (induction xs) auto

lemma present_append: "present (xs @ ys) = present xs @ present ys"
  by (induction xs rule: present.induct) auto

lemma present_replicate_None: "present (replicate k None) = []"
  by (induction k) auto

lemma present_remove:
  "i < length cs \<Longrightarrow> cs ! i = Some c \<Longrightarrow>
   mset (present (cs[i := None])) + {#c#} = mset (present cs)"
proof (induction cs arbitrary: i rule: present.induct)
  case 1
  then show ?case by simp
next
  case (2 xs)
  then show ?case by (cases i) auto
next
  case (3 x xs)
  then show ?case by (cases i) auto
qed

lemma present_remove_length:
  "i < length cs \<Longrightarrow> cs ! i = Some c \<Longrightarrow>
   Suc (length (present (cs[i := None]))) = length (present cs)"
proof (induction cs arbitrary: i rule: present.induct)
  case 1
  then show ?case by simp
next
  case (2 xs)
  then show ?case by (cases i) auto
next
  case (3 x xs)
  then show ?case by (cases i) auto
qed

lemma present_Nil_iff: "present cs = [] \<longleftrightarrow> (\<forall>i<length cs. cs ! i = None)"
proof (induction cs rule: present.induct)
  case 1
  then show ?case by simp
next
  case (2 xs)
  then show ?case by (auto simp: nth_Cons split: nat.splits)
next
  case (3 x xs)
  then show ?case by auto
qed

lemma store_next:
  "length placed = n \<Longrightarrow> n < k \<Longrightarrow>
   (map Some placed @ replicate (k - n) None)[n := Some c]
     = map Some (placed @ [c]) @ replicate (k - Suc n) None"
proof -
  assume a: "length placed = n" "n < k"
  then have "k - n = Suc (k - Suc n)" by simp
  then have "replicate (k - n) (None :: 'a option) = None # replicate (k - Suc n) None"
    by simp
  with a show ?thesis by (simp add: list_update_append)
qed

lemma find_open_SomeD:
  "find_open_controller_index cs h e = Some i \<Longrightarrow>
   i < length cs \<and> (\<exists>c. cs ! i = Some c \<and> getIsOpen (h c) \<and> matchesDeviceEnumerator (h c) e)"
  unfolding find_open_controller_index_def
  by (auto simp: find_Some_iff split: option.splits)

lemma find_closed_SomeD:
  "find_first_closed_controller_index cs h = Some i \<Longrightarrow>
   i < length cs \<and> (\<exists>c. cs ! i = Some c \<and> \<not> getIsOpen (h c))"
  unfolding find_first_closed_controller_index_def
  by (auto simp: find_Some_iff split: option.splits)

subsection \<open>A pass never stores out of bounds and moves every pointer once\<close>

lemma rc_inv_length_temp: "rc_inv k M r \<Longrightarrow> length (rc_temp r) = k"
  by (auto simp: rc_inv_def)

lemma rc_inv_length_controllers: "rc_inv k M r \<Longrightarrow> length (rc_controllers r) = k"
  by (simp add: rc_inv_def)

lemma rc_inv_in_bounds:
  assumes "rc_inv k M r" "i < length (rc_controllers r)" "rc_controllers r ! i = Some c"
  shows "rc_new_index r < k"
proof -
  have a: "Suc (length (present ((rc_controllers r)[i := None]))) = length (present (rc_controllers r))"
    by (rule present_remove_length [OF assms(2,3)])
  have b: "rc_new_index r + length (present (rc_controllers r)) = k"
    using assms(1) unfolding rc_inv_def by blast
  from a b show ?thesis by linarith
qed

lemma rc_inv_move:
  assumes inv: "rc_inv k M r" and i: "i < length (rc_controllers r)"
    and c: "rc_controllers r ! i = Some c"
    and cs: "rc_controllers r' = (rc_controllers r)[i := None]"
    and tmp: "rc_temp r' = (rc_temp r)[rc_new_index r := Some c]"
    and n: "rc_new_index r' = Suc (rc_new_index r)"
  shows "rc_inv k M r'"
proof -
  from inv obtain placed where len: "length (rc_controllers r) = k"
    and cnt: "rc_new_index r + length (present (rc_controllers r)) = k"
    and pl: "length placed = rc_new_index r"
    and tm: "rc_temp r = map Some placed @ replicate (k - rc_new_index r) None"
    and ms: "mset placed + mset (present (rc_controllers r)) = M"
    by (auto simp: rc_inv_def)
  have lt: "rc_new_index r < k" by (rule rc_inv_in_bounds [OF inv i c])
  have l1: "Suc (length (present (rc_controllers r'))) = length (present (rc_controllers r))"
    using present_remove_length [OF i c] cs by simp
  have m1: "mset (present (rc_controllers r')) + {#c#} = mset (present (rc_controllers r))"
    using present_remove [OF i c] cs by simp
  have t1: "rc_temp r' = map Some (placed @ [c]) @ replicate (k - Suc (rc_new_index r)) None"
    using store_next [OF pl lt, of c] tm tmp by simp
  have m2: "mset (placed @ [c]) + mset (present (rc_controllers r')) = M"
    using m1 [symmetric] ms [symmetric] by simp
  have l2: "rc_new_index r' + length (present (rc_controllers r')) = k"
    using l1 cnt n by linarith
  have l3: "length (rc_controllers r') = k" using cs len by simp
  have l4: "length (placed @ [c]) = rc_new_index r'" using pl n by simp
  have t2: "rc_temp r' = map Some (placed @ [c]) @ replicate (k - rc_new_index r') None"
    using t1 n by simp
  from l4 t2 m2 have "\<exists>placed. length placed = rc_new_index r' \<and>
        rc_temp r' = map Some placed @ replicate (k - rc_new_index r') None \<and>
        mset placed + mset (present (rc_controllers r')) = M"
    by blast
  with l2 l3 show ?thesis unfolding rc_inv_def by blast
qed

lemma enumerator_step_inv:
  assumes inv: "rc_inv k M r"
  shows "\<exists>go_on r'. enumerator_step open_ok e r = Some (go_on, r') \<and> rc_inv k M r'"
proof (cases "find_open_controller_index (rc_controllers r) (rc_heap r) e")
  case (Some i)
  from find_open_SomeD [OF Some] obtain c where i: "i < length (rc_controllers r)"
    and c: "rc_controllers r ! i = Some c" by blast
  have lt: "rc_new_index r < length (rc_temp r)"
    using rc_inv_in_bounds [OF inv i c] rc_inv_length_temp [OF inv] by simp
  show ?thesis
    using Some c lt i
    by (auto simp: enumerator_step_def store_temp_def clear_cell_def Let_def
             intro!: rc_inv_move [OF inv i c])
next
  case None
  note no_open = None
  show ?thesis
  proof (cases "find_first_closed_controller_index (rc_controllers r) (rc_heap r)")
    case (Some i)
    from find_closed_SomeD [OF Some] obtain c where i: "i < length (rc_controllers r)"
      and c: "rc_controllers r ! i = Some c" by blast
    have lt: "rc_new_index r < length (rc_temp r)"
      using rc_inv_in_bounds [OF inv i c] rc_inv_length_temp [OF inv] by simp
    show ?thesis
      using Some no_open c lt i
      by (auto simp: enumerator_step_def store_temp_def clear_cell_def Let_def open_controller_def
               intro!: rc_inv_move [OF inv i c])
  next
    case None
    then show ?thesis
      using no_open inv by (auto simp: enumerator_step_def rc_inv_def)
  qed
qed

lemma remaining_step_inv:
  assumes inv: "rc_inv k M r" and i: "i < length (rc_controllers r)"
  shows "\<exists>r'. remaining_step i r = Some r' \<and> rc_inv k M r'"
proof (cases "rc_controllers r ! i")
  case None
  then show ?thesis using inv by (simp add: remaining_step_def)
next
  case (Some c)
  have lt: "rc_new_index r < length (rc_temp r)"
    using rc_inv_in_bounds [OF inv i Some] rc_inv_length_temp [OF inv] by simp
  show ?thesis
    using Some lt i
    by (auto simp: remaining_step_def store_temp_def clear_cell_def Let_def
             intro!: rc_inv_move [OF inv i Some])
qed


lemma enumerate_devices_inv:
  "rc_inv k M r \<Longrightarrow> \<exists>r'. enumerate_devices open_ok es r = Some r' \<and> rc_inv k M r'"
proof (induction es arbitrary: r)
  case Nil
  then show ?case by simp
next
  case (Cons e es)
  from enumerator_step_inv [OF Cons.prems, of open_ok e]
  obtain go_on r1 where st: "enumerator_step open_ok e r = Some (go_on, r1)"
    and inv1: "rc_inv k M r1" by blast
  show ?case
  proof (cases go_on)
    case True
    from Cons.IH [OF inv1] obtain r' where "enumerate_devices open_ok es r1 = Some r'"
      "rc_inv k M r'" by blast
    with st True show ?thesis by simp
  next
    case False
    with st inv1 show ?thesis by simp
  qed
qed

lemma remaining_step_controllers:
  assumes "remaining_step i r = Some r'"
  shows "rc_controllers r' = (rc_controllers r)[i := None]"
proof (cases "rc_controllers r ! i")
  case None
  then have "r' = r" using assms by (simp add: remaining_step_def)
  moreover have "(rc_controllers r)[i := None] = rc_controllers r"
    using None by (metis list_update_id)
  ultimately show ?thesis by simp
next
  case (Some c)
  then show ?thesis using assms
    by (auto simp: remaining_step_def store_temp_def clear_cell_def Let_def split: if_splits)
qed

lemma collect_remaining_inv:
  "rc_inv k M r \<Longrightarrow> \<forall>i\<in>set is. i < k \<Longrightarrow>
   \<exists>r'. collect_remaining is r = Some r' \<and> rc_inv k M r'
        \<and> (\<forall>j<k. j \<in> set is \<or> rc_controllers r ! j = None \<longrightarrow> rc_controllers r' ! j = None)"
proof (induction "is" arbitrary: r)
  case Nil
  then show ?case by simp
next
  case (Cons i "is")
  have lc: "length (rc_controllers r) = k" by (rule rc_inv_length_controllers [OF Cons.prems(1)])
  from Cons.prems have i: "i < length (rc_controllers r)" using lc by simp
  from remaining_step_inv [OF Cons.prems(1) i]
  obtain r1 where st: "remaining_step i r = Some r1" and inv1: "rc_inv k M r1" by blast
  have cs1: "rc_controllers r1 = (rc_controllers r)[i := None]"
    by (rule remaining_step_controllers [OF st])
  have "\<forall>i\<in>set is. i < k" using Cons.prems(2) by simp
  from Cons.IH [OF inv1 this] obtain r' where r': "collect_remaining is r1 = Some r'"
    "rc_inv k M r'"
    and rest: "\<forall>j<k. j \<in> set is \<or> rc_controllers r1 ! j = None \<longrightarrow> rc_controllers r' ! j = None"
    by blast
  have "rc_controllers r' ! j = None"
    if j: "j < k" and h: "j \<in> set (i # is) \<or> rc_controllers r ! j = None" for j
  proof (cases "j = i")
    case True
    then have "rc_controllers r1 ! j = None" using cs1 lc j by simp
    with rest j show ?thesis by blast
  next
    case False
    then have "rc_controllers r1 ! j = rc_controllers r ! j" using cs1 by simp
    with rest j h False show ?thesis by auto
  qed
  with st r' show ?case by simp
qed

lemma rc_inv_start:
  "rc_inv (length (m_controllers s)) (mset (m_controllers s)) (start_reconnect s)"
  unfolding rc_inv_def start_reconnect_def k_max_psmove_controllers_def
  by (intro conjI exI [of _ "[]"]) (simp_all add: present_map_Some)

lemma rc_inv_finished:
  assumes inv: "rc_inv k M r" and none: "\<forall>j<k. rc_controllers r ! j = None"
  shows "\<exists>placed. rc_temp r = map Some placed \<and> mset placed = M \<and> rc_new_index r = k"
proof -
  have lc: "length (rc_controllers r) = k" by (rule rc_inv_length_controllers [OF inv])
  with none have e: "present (rc_controllers r) = []" by (simp add: present_Nil_iff)
  from inv obtain placed where pl: "length placed = rc_new_index r"
    "rc_temp r = map Some placed @ replicate (k - rc_new_index r) None"
    "mset placed + mset (present (rc_controllers r)) = M"
    "rc_new_index r + length (present (rc_controllers r)) = k"
    by (auto simp: rc_inv_def)
  from pl(4) e have n: "rc_new_index r = k" by simp
  from pl(2) n have "rc_temp r = map Some placed" by simp
  moreover from pl(3) e have "mset placed = M" by simp
  ultimately show ?thesis using n by blast
qed

lemma reconnect_steps_result:
  "\<exists>r2 placed. reconnect_steps es open_ok s = Some r2 \<and> rc_temp r2 = map Some placed
      \<and> mset placed = mset (m_controllers s)
      \<and> rc_new_index r2 = length (m_controllers s)
      \<and> update_connected_controllers es open_ok s =
          Some (s\<lparr>m_controllers := placed, heap := rc_heap r2,
                  server_log := server_log s @ rc_log r2\<rparr>)"
proof -
  let ?M = "mset (m_controllers s)"
  let ?k = "length (m_controllers s)"
  from enumerate_devices_inv [OF rc_inv_start, of open_ok es s]
  obtain r1 where r1: "enumerate_devices open_ok es (start_reconnect s) = Some r1"
    "rc_inv ?k ?M r1" by blast
  have "\<forall>i\<in>set [0..<?k]. i < ?k" by simp
  from collect_remaining_inv [OF r1(2) this]
  obtain r2 where r2: "collect_remaining [0..<?k] r1 = Some r2" "rc_inv ?k ?M r2"
    and rest: "\<forall>j<?k. j \<in> set [0..<?k] \<or> rc_controllers r1 ! j = None
                  \<longrightarrow> rc_controllers r2 ! j = None"
    by blast
  have "\<forall>j<?k. rc_controllers r2 ! j = None" using rest by simp
  from rc_inv_finished [OF r2(2) this] obtain placed where pl: "rc_temp r2 = map Some placed"
    "mset placed = ?M" "rc_new_index r2 = ?k" by blast
  have steps: "reconnect_steps es open_ok s = Some r2"
    using r1(1) r2(1) by (simp add: reconnect_steps_def k_max_psmove_controllers_def)
  have lp: "length placed = ?k" using pl(2) by (metis size_mset)
  have "map (\<lambda>i. map Some placed ! i) [0..<length (map Some placed)] = map Some placed"
    by (rule map_nth)
  then have copied: "map (\<lambda>i. rc_temp r2 ! i) [0..<?k] = map Some placed"
    using pl(1) lp by simp
  have nn: "None \<notin> set (map Some placed)" by auto
  have "update_connected_controllers es open_ok s =
          Some (s\<lparr>m_controllers := placed, heap := rc_heap r2,
                  server_log := server_log s @ rc_log r2\<rparr>)"
    unfolding update_connected_controllers_def k_max_psmove_controllers_def Let_def
    using steps nn by (simp add: copied comp_def)
  with steps pl show ?thesis by blast
qed

subsection \<open>What a pass leaves untouched\<close>

lemma enumerate_all_devices:
  "enumerate_all open_ok before r = Some r1 \<Longrightarrow>
   enumerate_devices open_ok (before @ rest) r = enumerate_devices open_ok rest r1"
proof (induction before arbitrary: r)
  case Nil
  then show ?case by simp
next
  case (Cons e before)
  then show ?case
    by (cases "enumerator_step open_ok e r") (auto split: if_splits)
qed

lemma same_payload_refl: "same_payload h h"
  by (simp add: same_payload_def)

lemma same_payload_trans: "same_payload h1 h2 \<Longrightarrow> same_payload h2 h3 \<Longrightarrow> same_payload h1 h3"
  by (simp add: same_payload_def)

lemma same_payload_upd:
  "last_pose c = last_pose (h a) \<Longrightarrow> last_state c = last_state (h a) \<Longrightarrow>
   same_payload h (h(a := c))"
  by (simp add: same_payload_def)

lemma enumerator_step_payload:
  assumes "enumerator_step open_ok e r = Some (go_on, r')"
  shows "same_payload (rc_heap r) (rc_heap r')"
  using assms
  by (auto simp: enumerator_step_def store_temp_def clear_cell_def Let_def open_controller_def
        setPSMoveID_def same_payload_def
      split: option.splits if_splits)

lemma remaining_step_payload:
  assumes "remaining_step i r = Some r'"
  shows "same_payload (rc_heap r) (rc_heap r')"
  using assms
  by (auto simp: remaining_step_def store_temp_def clear_cell_def Let_def close_controller_def
        setPSMoveID_def same_payload_def
      split: option.splits if_splits)

lemma enumerate_devices_payload:
  "enumerate_devices open_ok es r = Some r' \<Longrightarrow> same_payload (rc_heap r) (rc_heap r')"
proof (induction es arbitrary: r)
  case Nil
  then show ?case by (simp add: same_payload_refl)
next
  case (Cons e es)
  from Cons.prems obtain go_on r1 where st: "enumerator_step open_ok e r = Some (go_on, r1)"
    by (cases "enumerator_step open_ok e r") auto
  have p1: "same_payload (rc_heap r) (rc_heap r1)" by (rule enumerator_step_payload [OF st])
  show ?case
  proof (cases go_on)
    case True
    with Cons.prems st have "enumerate_devices open_ok es r1 = Some r'" by simp
    from Cons.IH [OF this] p1 show ?thesis by (rule same_payload_trans [rotated])
  next
    case False
    with Cons.prems st p1 show ?thesis by simp
  qed
qed

lemma collect_remaining_payload:
  "collect_remaining is r = Some r' \<Longrightarrow> same_payload (rc_heap r) (rc_heap r')"
proof (induction "is" arbitrary: r)
  case Nil
  then show ?case by (simp add: same_payload_refl)
next
  case (Cons i "is")
  from Cons.prems obtain r1 where st: "remaining_step i r = Some r1"
    and rest: "collect_remaining is r1 = Some r'"
    by (cases "remaining_step i r") auto
  from remaining_step_payload [OF st] Cons.IH [OF rest] show ?case
    by (rule same_payload_trans)
qed

lemma reconnect_steps_payload:
  assumes "reconnect_steps es open_ok s = Some r2"
  shows "same_payload (heap s) (rc_heap r2)"
proof -
  from assms obtain r1 where a: "enumerate_devices open_ok es (start_reconnect s) = Some r1"
    and b: "collect_remaining [0..<k_max_psmove_controllers s] r1 = Some r2"
    by (auto simp: reconnect_steps_def split: option.splits)
  have "rc_heap (start_reconnect s) = heap s" by (simp add: start_reconnect_def)
  with enumerate_devices_payload [OF a] collect_remaining_payload [OF b] show ?thesis
    by (metis same_payload_trans)
qed

lemma same_payload_fields:
  "same_payload h h' \<Longrightarrow>
   h' a = (h a)\<lparr>psmove_id := psmove_id (h' a), is_open := is_open (h' a),
               bound_identity := bound_identity (h' a)\<rparr>"
  by (simp add: same_payload_def)


subsection \<open>What an iteration may change\<close>

lemma Some_in_set_present: "Some a \<in> set cs \<longleftrightarrow> a \<in> set (present cs)"
  by (induction cs rule: present.induct) auto

lemma rc_inv_placed_not_remaining:
  assumes inv: "rc_inv k (mset tbl) r" and d: "distinct tbl"
    and p: "p < rc_new_index r" and a: "rc_temp r ! p = Some a"
  shows "Some a \<notin> set (rc_controllers r)"
proof -
  from inv obtain placed where pl: "length placed = rc_new_index r"
    "rc_temp r = map Some placed @ replicate (k - rc_new_index r) None"
    "mset placed + mset (present (rc_controllers r)) = mset tbl"
    by (auto simp: rc_inv_def)
  have "mset (placed @ present (rc_controllers r)) = mset tbl" using pl(3) by simp
  then have "distinct (placed @ present (rc_controllers r))"
    using d by (metis mset_eq_imp_distinct_iff)
  moreover have "a = placed ! p" using pl(1,2) p a by (simp add: nth_append)
  then have "a \<in> set placed" using pl(1) p by simp
  ultimately have "a \<notin> set (present (rc_controllers r))" by auto
  then show ?thesis by (simp add: Some_in_set_present)
qed

lemma step_frame_refl: "step_frame r r"
  by (simp add: step_frame_def)

lemma step_frame_trans:
  assumes "step_frame r1 r2" "step_frame r2 r3"
  shows "step_frame r1 r3"
  using assms unfolding step_frame_def
  by (metis (no_types, lifting) append.assoc le_trans less_le_trans)

lemma set_update_None:
  "Some a \<in> set (cs[i := None]) \<Longrightarrow> Some a \<in> set cs"
  by (metis in_set_conv_nth length_list_update nth_list_update_eq nth_list_update_neq option.distinct(1))

lemma nth_in_set_Some: "i < length cs \<Longrightarrow> cs ! i = Some c \<Longrightarrow> Some c \<in> set cs"
  by (metis nth_mem)

lemma enumerator_step_frame:
  assumes "enumerator_step open_ok e r = Some (go_on, r')"
  shows "step_frame r r'"
proof (cases "find_open_controller_index (rc_controllers r) (rc_heap r) e")
  case (Some i)
  from find_open_SomeD [OF Some] obtain c where i: "i < length (rc_controllers r)"
    and c: "rc_controllers r ! i = Some c" by blast
  have m: "Some c \<in> set (rc_controllers r)" by (rule nth_in_set_Some [OF i c])
  show ?thesis
    using assms Some c m
    by (auto simp: enumerator_step_def store_temp_def clear_cell_def Let_def step_frame_def
          dest: set_update_None split: if_splits)
next
  case None
  note no_open = None
  show ?thesis
  proof (cases "find_first_closed_controller_index (rc_controllers r) (rc_heap r)")
    case (Some i)
    from find_closed_SomeD [OF Some] obtain c where i: "i < length (rc_controllers r)"
      and c: "rc_controllers r ! i = Some c" by blast
    have m: "Some c \<in> set (rc_controllers r)" by (rule nth_in_set_Some [OF i c])
    show ?thesis
      using assms Some no_open c m
      by (auto simp: enumerator_step_def store_temp_def clear_cell_def Let_def step_frame_def
            open_controller_def dest: set_update_None split: if_splits)
  next
    case None
    then show ?thesis
      using assms no_open by (auto simp: enumerator_step_def step_frame_def)
  qed
qed

lemma remaining_step_frame:
  assumes "remaining_step i r = Some r'" and i: "i < length (rc_controllers r)"
  shows "step_frame r r'"
proof (cases "rc_controllers r ! i")
  case None
  then show ?thesis using assms by (simp add: remaining_step_def step_frame_refl)
next
  case (Some c)
  have m: "Some c \<in> set (rc_controllers r)" by (rule nth_in_set_Some [OF i Some])
  show ?thesis
    using assms Some m
    by (auto simp: remaining_step_def store_temp_def clear_cell_def Let_def step_frame_def
          dest: set_update_None split: if_splits)
qed

lemma enumerate_devices_frame:
  "enumerate_devices open_ok es r = Some r' \<Longrightarrow> step_frame r r'"
proof (induction es arbitrary: r)
  case Nil
  then show ?case by (simp add: step_frame_refl)
next
  case (Cons e es)
  from Cons.prems obtain go_on r1 where st: "enumerator_step open_ok e r = Some (go_on, r1)"
    by (cases "enumerator_step open_ok e r") auto
  have f1: "step_frame r r1" by (rule enumerator_step_frame [OF st])
  show ?case
  proof (cases go_on)
    case True
    with Cons.prems st have "enumerate_devices open_ok es r1 = Some r'" by simp
    from f1 Cons.IH [OF this] show ?thesis by (rule step_frame_trans)
  next
    case False
    with Cons.prems st f1 show ?thesis by simp
  qed
qed

lemma collect_remaining_frame:
  "collect_remaining is r = Some r' \<Longrightarrow> \<forall>i\<in>set is. i < length (rc_controllers r) \<Longrightarrow>
   step_frame r r'"
proof (induction "is" arbitrary: r)
  case Nil
  then show ?case by (simp add: step_frame_refl)
next
  case (Cons i "is")
  from Cons.prems obtain r1 where st: "remaining_step i r = Some r1"
    and rest: "collect_remaining is r1 = Some r'"
    by (cases "remaining_step i r") auto
  have i: "i < length (rc_controllers r)" using Cons.prems(2) by simp
  have f1: "step_frame r r1" by (rule remaining_step_frame [OF st i])
  have "length (rc_controllers r1) = length (rc_controllers r)"
    using remaining_step_controllers [OF st] by simp
  with Cons.prems(2) have "\<forall>i\<in>set is. i < length (rc_controllers r1)" by simp
  from f1 Cons.IH [OF rest this] show ?case by (rule step_frame_trans)
qed

subsection \<open>The structure of a pass\<close>

lemma enumerate_all_is_devices:
  "enumerate_all open_ok before r = Some r1 \<Longrightarrow> enumerate_devices open_ok before r = Some r1"
  using enumerate_all_devices [of open_ok before r r1 "[]"] by simp

lemma enumerate_all_index:
  "enumerate_all open_ok before r = Some r1 \<Longrightarrow>
   rc_new_index r1 = rc_new_index r + length before"
proof (induction before arbitrary: r)
  case Nil
  then show ?case by simp
next
  case (Cons e before)
  from Cons.prems obtain r' where st: "enumerator_step open_ok e r = Some (True, r')"
    and rest: "enumerate_all open_ok before r' = Some r1"
    by (cases "enumerator_step open_ok e r") (auto split: if_splits)
  have "rc_new_index r' = Suc (rc_new_index r)"
    using st
    by (auto simp: enumerator_step_def store_temp_def clear_cell_def Let_def open_controller_def
          split: option.splits if_splits)
  with Cons.IH [OF rest] show ?case by simp
qed

lemma enumerate_all_inv:
  assumes "enumerate_all open_ok before (start_reconnect s) = Some r"
  shows "rc_inv (length (m_controllers s)) (mset (m_controllers s)) r"
    and "rc_new_index r = length before"
proof -
  from enumerate_devices_inv [OF rc_inv_start, of open_ok before s]
    enumerate_all_is_devices [OF assms]
  show "rc_inv (length (m_controllers s)) (mset (m_controllers s)) r" by simp
  from enumerate_all_index [OF assms] show "rc_new_index r = length before"
    by (simp add: start_reconnect_def)
qed

text \<open>The rest of a pass, from any state that the first loop can be in.\<close>

lemma finish_pass:
  assumes inv: "rc_inv (length (m_controllers s)) (mset (m_controllers s)) r"
    and go: "enumerate_devices open_ok es (start_reconnect s) = enumerate_devices open_ok rest r"
  shows "\<exists>r1 r2 s'. enumerate_devices open_ok rest r = Some r1 \<and>
      collect_remaining [0..<length (m_controllers s)] r1 = Some r2 \<and>
      step_frame r r1 \<and> step_frame r1 r2 \<and>
      rc_inv (length (m_controllers s)) (mset (m_controllers s)) r1 \<and>
      update_connected_controllers es open_ok s = Some s' \<and>
      rc_temp r2 = map Some (m_controllers s') \<and>
      mset (m_controllers s') = mset (m_controllers s) \<and>
      length (m_controllers s') = length (m_controllers s) \<and>
      heap s' = rc_heap r2 \<and> server_log s' = server_log s @ rc_log r2 \<and>
      m_sequence_number s' = m_sequence_number s \<and> published s' = published s \<and>
      m_config s' = m_config s \<and> m_last_poll_time s' = m_last_poll_time s \<and>
      m_last_reconnect_time s' = m_last_reconnect_time s"
proof -
  let ?k = "length (m_controllers s)"
  from enumerate_devices_inv [OF inv, of open_ok rest]
  obtain r1 where r1: "enumerate_devices open_ok rest r = Some r1"
    and inv1: "rc_inv ?k (mset (m_controllers s)) r1" by blast
  from reconnect_steps_result [of es open_ok s]
  obtain r2 placed where steps: "reconnect_steps es open_ok s = Some r2"
    and tmp: "rc_temp r2 = map Some placed"
    and ms: "mset placed = mset (m_controllers s)"
    and res: "update_connected_controllers es open_ok s =
          Some (s\<lparr>m_controllers := placed, heap := rc_heap r2,
                  server_log := server_log s @ rc_log r2\<rparr>)"
    by blast
  have c2: "collect_remaining [0..<?k] r1 = Some r2"
    using steps go r1 by (simp add: reconnect_steps_def k_max_psmove_controllers_def)
  have f1: "step_frame r r1" by (rule enumerate_devices_frame [OF r1])
  have "\<forall>i\<in>set [0..<?k]. i < length (rc_controllers r1)"
    using rc_inv_length_controllers [OF inv1] by simp
  from collect_remaining_frame [OF c2 this] have f2: "step_frame r1 r2" .
  have len: "length placed = length (m_controllers s)" using ms by (metis size_mset)
  from r1 c2 f1 f2 inv1 res tmp ms len show ?thesis by simp
qed

lemma take_eq_nth:
  "n \<le> length xs \<Longrightarrow> n \<le> length ys \<Longrightarrow> \<forall>p<n. xs ! p = ys ! p \<Longrightarrow> take n xs = take n ys"
  by (simp add: list_eq_iff_nth_eq)

subsection \<open>Unfolding the concrete inputs\<close>

lemmas example_defs = one_open_manager_def started_manager_def startup_def
  new_ControllerManagerImpl_def new_PSMoveController_def start_reconnect_def
  k_max_psmove_controllers_def find_open_controller_index_def
  find_first_closed_controller_index_def getIsOpen_def matchesDeviceEnumerator_def
  opens_all_def opens_none_def


subsection \<open>Polling and the scheduler\<close>


lemma fold_keeps:
  "(\<And>i s. g (f i s) = g s) \<Longrightarrow> g (fold f is s) = g s"
  by (induction "is" arbitrary: s) simp_all

lemma fold_preserves:
  "(\<And>i s. P s \<Longrightarrow> P (f i s)) \<Longrightarrow> P s \<Longrightarrow> P (fold f is s)"
  by (induction "is" arbitrary: s) simp_all

lemma poll_controller_config: "m_config (poll_controller replies i s) = m_config s"
  by (simp add: poll_controller_def publish_controller_data_frame_def Let_def
      split: prod.splits ReadDataResult.splits)

lemma poll_controller_controllers: "m_controllers (poll_controller replies i s) = m_controllers s"
  by (simp add: poll_controller_def publish_controller_data_frame_def Let_def
      split: prod.splits ReadDataResult.splits)

lemma poll_controller_poll_time:
  "m_last_poll_time (poll_controller replies i s) = m_last_poll_time s"
  by (simp add: poll_controller_def publish_controller_data_frame_def Let_def
      split: prod.splits ReadDataResult.splits)

lemma poll_controller_reconnect_time:
  "m_last_reconnect_time (poll_controller replies i s) = m_last_reconnect_time s"
  by (simp add: poll_controller_def publish_controller_data_frame_def Let_def
      split: prod.splits ReadDataResult.splits)

lemma poll_config: "m_config (poll_open_controllers replies s) = m_config s"
  unfolding poll_open_controllers_def by (rule fold_keeps) (rule poll_controller_config)

lemma poll_controllers: "m_controllers (poll_open_controllers replies s) = m_controllers s"
  unfolding poll_open_controllers_def by (rule fold_keeps) (rule poll_controller_controllers)

lemma poll_poll_time: "m_last_poll_time (poll_open_controllers replies s) = m_last_poll_time s"
  unfolding poll_open_controllers_def by (rule fold_keeps) (rule poll_controller_poll_time)

lemma poll_reconnect_time:
  "m_last_reconnect_time (poll_open_controllers replies s) = m_last_reconnect_time s"
  unfolding poll_open_controllers_def by (rule fold_keeps) (rule poll_controller_reconnect_time)

lemma reconnect_result:
  "\<exists>s'. update_connected_controllers es open_ok s = Some s' \<and>
      m_sequence_number s' = m_sequence_number s \<and> published s' = published s \<and>
      m_config s' = m_config s \<and> m_last_poll_time s' = m_last_poll_time s \<and>
      m_last_reconnect_time s' = m_last_reconnect_time s"
  using reconnect_steps_result [of es open_ok s] by auto

lemma total_milliseconds_ge:
  "0 \<le> d \<Longrightarrow> (k \<le> total_milliseconds d) = (1000 * k \<le> d)"
  unfolding total_milliseconds_def by simp linarith

lemma total_milliseconds_ge_positive:
  assumes "0 < k \<or> 0 \<le> d"
  shows "(k \<le> total_milliseconds d) = (1000 * k \<le> d)"
proof (cases "0 \<le> d")
  case True
  then show ?thesis by (rule total_milliseconds_ge)
next
  case False
  with assms have k: "0 < k" by simp
  have "0 \<le> (- d) div 1000" using False by (simp add: pos_imp_zdiv_nonneg_iff)
  then have "total_milliseconds d \<le> 0" using False by (simp add: total_milliseconds_def)
  with k False show ?thesis by linarith
qed

lemma poll_guard_elapsed:
  assumes "0 < controller_poll_interval config \<or> m_last_poll_time s \<le> now"
  shows "poll_guard config now s = poll_interval_elapsed config now s"
  unfolding poll_guard_def poll_interval_elapsed_def
  by (rule total_milliseconds_ge_positive) (use assms in auto)

lemma reconnect_guard_elapsed:
  assumes "0 < controller_reconnect_interval config \<or> m_last_reconnect_time s \<le> now"
  shows "reconnect_guard config now s = reconnect_interval_elapsed config now s"
  unfolding reconnect_guard_def reconnect_interval_elapsed_def
  by (rule total_milliseconds_ge_positive) (use assms in auto)


lemma update_unfold:
  assumes cfg: "m_config s = Some config"
  shows "update now replies enumerator open_ok s =
     (if reconnect_guard config now s
      then map_option (stamp_reconnect now)
             (update_connected_controllers enumerator open_ok
                (if poll_guard config now s
                 then stamp_poll now (poll_open_controllers replies s) else s))
      else Some (if poll_guard config now s
                 then stamp_poll now (poll_open_controllers replies s) else s))"
proof -
  let ?s1 = "if poll_guard config now s then stamp_poll now (poll_open_controllers replies s) else s"
  have rt: "m_last_reconnect_time ?s1 = m_last_reconnect_time s"
    by (simp add: stamp_poll_def poll_reconnect_time)
  show ?thesis
    using cfg rt
    by (auto simp: update_def Let_def poll_guard_def reconnect_guard_def stamp_poll_def
          stamp_reconnect_def split: option.splits)
qed

lemma update_by_guards:
  assumes cfg: "m_config s = Some config"
  shows "\<exists>s'. update now replies enumerator open_ok s = Some s' \<and>
     m_last_poll_time s' = (if poll_guard config now s then now else m_last_poll_time s) \<and>
     m_last_reconnect_time s' =
       (if reconnect_guard config now s then now else m_last_reconnect_time s) \<and>
     (\<not> poll_guard config now s \<and> \<not> reconnect_guard config now s \<longrightarrow> s' = s) \<and>
     (poll_guard config now s \<and> \<not> reconnect_guard config now s \<longrightarrow>
        s' = stamp_poll now (poll_open_controllers replies s)) \<and>
     (\<not> poll_guard config now s \<and> reconnect_guard config now s \<longrightarrow>
        Some s' = map_option (stamp_reconnect now)
                    (update_connected_controllers enumerator open_ok s)) \<and>
     (poll_guard config now s \<and> reconnect_guard config now s \<longrightarrow>
        Some s' = map_option (stamp_reconnect now)
                    (update_connected_controllers enumerator open_ok
                       (stamp_poll now (poll_open_controllers replies s))))"
proof -
  let ?s1 = "if poll_guard config now s then stamp_poll now (poll_open_controllers replies s) else s"
  have rt: "m_last_reconnect_time ?s1 = m_last_reconnect_time s"
    by (simp add: stamp_poll_def poll_reconnect_time)
  have pt: "m_last_poll_time ?s1 = (if poll_guard config now s then now else m_last_poll_time s)"
    by (simp add: stamp_poll_def)
  have rd: "reconnect_guard config now ?s1 = reconnect_guard config now s"
    using rt by (simp add: reconnect_guard_def)
  have upd: "update now replies enumerator open_ok s =
     (if reconnect_guard config now s
      then map_option (stamp_reconnect now) (update_connected_controllers enumerator open_ok ?s1)
      else Some ?s1)"
    by (rule update_unfold [OF cfg])
  from reconnect_result [of enumerator open_ok ?s1]
  obtain s2 where s2: "update_connected_controllers enumerator open_ok ?s1 = Some s2"
    "m_last_poll_time s2 = m_last_poll_time ?s1"
    by blast
  show ?thesis
  proof (cases "reconnect_guard config now s")
    case True
    have "update now replies enumerator open_ok s = Some (stamp_reconnect now s2)"
      using upd True s2(1) by simp
    moreover have "m_last_poll_time (stamp_reconnect now s2)
        = (if poll_guard config now s then now else m_last_poll_time s)"
      using s2(2) pt by (simp add: stamp_reconnect_def)
    moreover have "m_last_reconnect_time (stamp_reconnect now s2) = now"
      by (simp add: stamp_reconnect_def)
    ultimately show ?thesis using True s2(1) by (cases "poll_guard config now s") auto
  next
    case False
    have "update now replies enumerator open_ok s = Some ?s1" using upd False by simp
    then show ?thesis using False pt rt by (cases "poll_guard config now s") auto
  qed
qed

subsection \<open>The sequence counter\<close>


lemma publish_seq_ok: "seq_ok s \<Longrightarrow> seq_ok (publish_controller_data_frame c s)"
  by (simp add: seq_ok_def publish_controller_data_frame_def make_data_frame_def Let_def)

lemma seq_ok_cong:
  "m_sequence_number s' = m_sequence_number s \<Longrightarrow> published s' = published s \<Longrightarrow>
   seq_ok s' = seq_ok s"
  by (simp add: seq_ok_def)

lemma seq_ok_heap: "seq_ok (s\<lparr>heap := h\<rparr>) = seq_ok s"
  by (simp add: seq_ok_def)

lemma seq_ok_log: "seq_ok (s\<lparr>server_log := l\<rparr>) = seq_ok s"
  by (simp add: seq_ok_def)

lemma poll_controller_seq_ok:
  assumes ok: "seq_ok s"
  shows "seq_ok (poll_controller replies i s)"
proof (cases "getIsOpen (heap s (m_controllers s ! i))")
  case False
  then show ?thesis using ok by (simp add: poll_controller_def)
next
  case True
  obtain result c where rd: "readDataIn (replies i) (heap s (m_controllers s ! i)) = (result, c)"
    by (cases "readDataIn (replies i) (heap s (m_controllers s ! i))") auto
  let ?s1 = "s\<lparr>heap := (heap s)(m_controllers s ! i := c)\<rparr>"
  have ok1: "seq_ok ?s1" using ok by (simp add: seq_ok_heap)
  show ?thesis
  proof (cases result)
    case ReadDataResultSuccessNoData
    then show ?thesis using True rd ok1 by (simp add: poll_controller_def)
  next
    case ReadDataResultSuccessNewData
    then show ?thesis
      using True rd publish_seq_ok [OF ok1] by (simp add: poll_controller_def Let_def)
  next
    case ReadDataResultFailure
    then show ?thesis
      using True rd ok by (simp add: poll_controller_def seq_ok_def)
  qed
qed

lemma poll_seq_ok: "seq_ok s \<Longrightarrow> seq_ok (poll_open_controllers replies s)"
  unfolding poll_open_controllers_def
  by (rule fold_preserves) (rule poll_controller_seq_ok)

lemma update_seq_ok:
  assumes cfg: "m_config s = Some config" and ok: "seq_ok s"
  shows "\<exists>s'. update now replies enumerator open_ok s = Some s' \<and> seq_ok s'
           \<and> m_config s' = Some config"
proof -
  let ?s1 = "if poll_guard config now s then stamp_poll now (poll_open_controllers replies s) else s"
  have ok1: "seq_ok ?s1"
    using ok poll_seq_ok [OF ok, of replies] by (simp add: stamp_poll_def seq_ok_def)
  have cfg1: "m_config ?s1 = Some config" using cfg by (simp add: stamp_poll_def poll_config)
  from reconnect_result [of enumerator open_ok ?s1]
  obtain s2 where s2: "update_connected_controllers enumerator open_ok ?s1 = Some s2"
    "m_sequence_number s2 = m_sequence_number ?s1" "published s2 = published ?s1"
    "m_config s2 = m_config ?s1"
    by blast
  have ok2: "seq_ok (stamp_reconnect now s2)"
    using ok1 s2(2,3) by (simp add: seq_ok_def stamp_reconnect_def)
  have cfg2: "m_config (stamp_reconnect now s2) = Some config"
    using cfg1 s2(4) by (simp add: stamp_reconnect_def)
  show ?thesis
    unfolding update_unfold [OF cfg]
    using s2(1) ok1 ok2 cfg1 cfg2 by (cases "reconnect_guard config now s") simp_all
qed

lemma service_loop_seq_ok:
  "m_config s = Some config \<Longrightarrow> seq_ok s \<Longrightarrow>
   \<exists>s'. service_loop ticks s = Some s' \<and> seq_ok s'"
proof (induction ticks arbitrary: s)
  case Nil
  then show ?case by simp
next
  case (Cons t ticks)
  obtain now replies enumerator open_ok where t: "t = (now, replies, enumerator, open_ok)"
    by (cases t) auto
  from update_seq_ok [OF Cons.prems, of now replies enumerator open_ok]
  obtain s1 where s1: "update now replies enumerator open_ok s = Some s1" "seq_ok s1"
    "m_config s1 = Some config" by blast
  from Cons.IH [OF s1(3) s1(2)] s1(1) t show ?case by simp
qed


lemma sint_of_nat_small:
  assumes "n < 2 ^ 31"
  shows "sint (of_nat n :: 32 word) = int n"
proof -
  have "- (2 ^ 31) \<le> int n" by (rule order_trans [of _ 0]) simp_all
  moreover have "int n < 2 ^ 31" using assms by (metis of_nat_less_iff of_nat_numeral of_nat_power)
  ultimately have "signed_take_bit 31 (int n) = int n"
    by (rule signed_take_bit_int_eq_self)
  then show ?thesis by (simp add: signed_of_nat)
qed

subsection \<open>What a poll pass does to each controller\<close>


lemma poll_controller_heap:
  "heap (poll_controller replies i s) =
     (heap s)(m_controllers s ! i := poll_result (replies i) (heap s (m_controllers s ! i)))"
  by (cases "replies i")
     (auto simp: poll_controller_def poll_result_def readDataIn_def getIsOpen_def Let_def
        publish_controller_data_frame_def)

lemma poll_result_psmove_id: "psmove_id (poll_result reply c) = psmove_id c"
  by (cases reply) (simp_all add: poll_result_def close_controller_def)

lemma poll_result_open: "is_open (poll_result reply c) \<Longrightarrow> is_open c"
  by (cases reply) (simp_all add: poll_result_def close_controller_def split: if_splits)

lemma poll_result_Failure:
  "\<not> is_open (poll_result Failure c) \<and> (is_open c \<longrightarrow> bound_identity (poll_result Failure c) = None)"
  by (simp add: poll_result_def close_controller_def)

lemma poll_result_keeps:
  "reply \<noteq> Failure \<Longrightarrow>
   is_open (poll_result reply c) = is_open c \<and>
   bound_identity (poll_result reply c) = bound_identity c"
  by (cases reply) (simp_all add: poll_result_def)

lemma poll_result_NoData: "poll_result NoData c = c"
  by (simp add: poll_result_def)

lemma fold_poll_controllers:
  "m_controllers (fold (poll_controller replies) is s) = m_controllers s"
  by (rule fold_keeps) (rule poll_controller_controllers)

lemma fold_poll_other:
  "a \<notin> (\<lambda>i. m_controllers s ! i) ` set is \<Longrightarrow>
   heap (fold (poll_controller replies) is s) a = heap s a"
proof (induction "is" arbitrary: s)
  case Nil
  then show ?case by simp
next
  case (Cons i "is")
  let ?s1 = "poll_controller replies i s"
  have m: "m_controllers ?s1 = m_controllers s" by (rule poll_controller_controllers)
  have "a \<notin> (\<lambda>i. m_controllers ?s1 ! i) ` set is" using Cons.prems m by auto
  from Cons.IH [OF this] have "heap (fold (poll_controller replies) is ?s1) a = heap ?s1 a" .
  moreover have "heap ?s1 a = heap s a"
    using Cons.prems by (auto simp: poll_controller_heap)
  ultimately show ?case by simp
qed

lemma fold_poll_at:
  "distinct (m_controllers s) \<Longrightarrow> distinct is \<Longrightarrow> \<forall>i\<in>set is. i < length (m_controllers s) \<Longrightarrow>
   j \<in> set is \<Longrightarrow>
   heap (fold (poll_controller replies) is s) (m_controllers s ! j)
     = poll_result (replies j) (heap s (m_controllers s ! j))"
proof (induction "is" arbitrary: s)
  case Nil
  then show ?case by simp
next
  case (Cons i "is")
  let ?s1 = "poll_controller replies i s"
  have m: "m_controllers ?s1 = m_controllers s" by (rule poll_controller_controllers)
  show ?case
  proof (cases "j = i")
    case True
    have "m_controllers s ! i \<notin> (\<lambda>i. m_controllers ?s1 ! i) ` set is"
    proof
      assume "m_controllers s ! i \<in> (\<lambda>i. m_controllers ?s1 ! i) ` set is"
      then obtain i' where i': "i' \<in> set is" "m_controllers s ! i = m_controllers s ! i'"
        using m by auto
      with Cons.prems have "i = i'" by (simp add: nth_eq_iff_index_eq)
      with i' Cons.prems(2) show False by simp
    qed
    from fold_poll_other [OF this]
    have "heap (fold (poll_controller replies) is ?s1) (m_controllers s ! i)
            = heap ?s1 (m_controllers s ! i)" .
    then show ?thesis using True by (simp add: poll_controller_heap)
  next
    case False
    with Cons.prems have j: "j \<in> set is" by simp
    have d1: "distinct (m_controllers ?s1)" using Cons.prems(1) m by simp
    have b1: "\<forall>i\<in>set is. i < length (m_controllers ?s1)" using Cons.prems(3) m by simp
    have "distinct is" using Cons.prems(2) by simp
    from Cons.IH [OF d1 this b1 j]
    have "heap (fold (poll_controller replies) is ?s1) (m_controllers s ! j)
            = poll_result (replies j) (heap ?s1 (m_controllers s ! j))" using m by simp
    moreover have "m_controllers s ! j \<noteq> m_controllers s ! i"
      using False Cons.prems j by (simp add: nth_eq_iff_index_eq)
    then have "heap ?s1 (m_controllers s ! j) = heap s (m_controllers s ! j)"
      by (simp add: poll_controller_heap)
    ultimately show ?thesis by simp
  qed
qed

lemma poll_at:
  assumes "distinct (m_controllers s)" "j < length (m_controllers s)"
  shows "heap (poll_open_controllers replies s) (m_controllers s ! j)
     = poll_result (replies j) (heap s (m_controllers s ! j))"
  unfolding poll_open_controllers_def k_max_psmove_controllers_def
  using assms by (intro fold_poll_at) simp_all

lemma poll_other:
  assumes "a \<notin> set (m_controllers s)"
  shows "heap (poll_open_controllers replies s) a = heap s a"
  unfolding poll_open_controllers_def k_max_psmove_controllers_def
proof (rule fold_poll_other)
  show "a \<notin> (\<lambda>i. m_controllers s ! i) ` set [0..<length (m_controllers s)]"
    using assms by auto
qed

text \<open>The frames of a pass come from open controllers whose read delivered new data.\<close>

lemma poll_controller_published:
  "\<exists>new. published (poll_controller replies i s) = published s @ new \<and>
     (\<forall>f\<in>set new. df_psmove_id f = psmove_id (heap s (m_controllers s ! i)) \<and>
        is_open (heap s (m_controllers s ! i)) \<and> replies i \<noteq> Failure \<and> replies i \<noteq> NoData)"
  by (cases "replies i")
     (auto simp: poll_controller_def readDataIn_def getIsOpen_def Let_def
        publish_controller_data_frame_def make_data_frame_def getPSMoveID_def)

lemma fold_poll_published:
  "\<exists>new. published (fold (poll_controller replies) is s) = published s @ new \<and>
     (\<forall>f\<in>set new. \<exists>j\<in>set is. df_psmove_id f = psmove_id (heap s (m_controllers s ! j)) \<and>
        is_open (heap s (m_controllers s ! j)) \<and> replies j \<noteq> Failure \<and> replies j \<noteq> NoData)"
proof (induction "is" arbitrary: s)
  case Nil
  then show ?case by simp
next
  case (Cons i "is")
  let ?s1 = "poll_controller replies i s"
  have m: "m_controllers ?s1 = m_controllers s" by (rule poll_controller_controllers)
  from poll_controller_published [of replies i s]
  obtain new1 where n1: "published ?s1 = published s @ new1"
    "\<forall>f\<in>set new1. df_psmove_id f = psmove_id (heap s (m_controllers s ! i)) \<and>
        is_open (heap s (m_controllers s ! i)) \<and> replies i \<noteq> Failure \<and> replies i \<noteq> NoData"
    by blast
  from Cons.IH [of ?s1]
  obtain new2 where n2: "published (fold (poll_controller replies) is ?s1) = published ?s1 @ new2"
    "\<forall>f\<in>set new2. \<exists>j\<in>set is. df_psmove_id f = psmove_id (heap ?s1 (m_controllers ?s1 ! j)) \<and>
        is_open (heap ?s1 (m_controllers ?s1 ! j)) \<and> replies j \<noteq> Failure \<and> replies j \<noteq> NoData"
    by blast
  have id1: "psmove_id (heap ?s1 a) = psmove_id (heap s a)" for a
    by (simp add: poll_controller_heap poll_result_psmove_id)
  have op1: "is_open (heap ?s1 a) \<Longrightarrow> is_open (heap s a)" for a
    by (auto simp: poll_controller_heap dest: poll_result_open split: if_splits)
  have "\<exists>j\<in>set (i # is).
        df_psmove_id f = psmove_id (heap s (m_controllers s ! j)) \<and>
        is_open (heap s (m_controllers s ! j)) \<and> replies j \<noteq> Failure \<and> replies j \<noteq> NoData"
    if f: "f \<in> set (new1 @ new2)" for f
  proof (cases "f \<in> set new1")
    case True
    with n1(2) show ?thesis by simp
  next
    case False
    with f have "f \<in> set new2" by simp
    with n2(2) obtain j where j: "j \<in> set is"
      "df_psmove_id f = psmove_id (heap ?s1 (m_controllers ?s1 ! j))"
      "is_open (heap ?s1 (m_controllers ?s1 ! j))" "replies j \<noteq> Failure" "replies j \<noteq> NoData"
      by blast
    have "df_psmove_id f = psmove_id (heap s (m_controllers s ! j))"
      using j(2) m id1 by simp
    moreover have "is_open (heap s (m_controllers s ! j))" using j(3) m op1 by simp
    ultimately show ?thesis using j(1,4,5) by auto
  qed
  then have "\<forall>f\<in>set (new1 @ new2). \<exists>j\<in>set (i # is).
        df_psmove_id f = psmove_id (heap s (m_controllers s ! j)) \<and>
        is_open (heap s (m_controllers s ! j)) \<and> replies j \<noteq> Failure \<and> replies j \<noteq> NoData"
    by blast
  moreover have "published (fold (poll_controller replies) (i # is) s) = published s @ new1 @ new2"
    using n1(1) n2(1) by simp
  ultimately show ?case by blast
qed



subsection \<open>A pass over a settled manager changes nothing\<close>


lemma moved_in_place_start: "start_reconnect s = moved_in_place s 0"
  by (simp add: start_reconnect_def moved_in_place_def k_max_psmove_controllers_def)

lemma clear_next:
  "p < length xs \<Longrightarrow>
   (replicate p None @ drop p xs)[p := None] = replicate (Suc p) None @ drop (Suc p) xs"
  by (simp add: list_update_append replicate_append_same Cons_nth_drop_Suc [symmetric])

lemma find_first_at:
  assumes "p < k" "P p" "\<forall>j<p. \<not> P j"
  shows "List.find P [0..<k] = Some p"
  using assms by (auto simp: find_Some_iff intro!: exI [of _ p])

lemma moved_in_place_find:
  assumes st: "settled es s" and p: "p < length es"
  shows "find_open_controller_index (rc_controllers (moved_in_place s p))
           (rc_heap (moved_in_place s p)) (es ! p) = Some p"
proof -
  let ?tbl = "m_controllers s"
  have pk: "p < length ?tbl" using st p by (simp add: settled_def)
  have op: "is_open (heap s (?tbl ! p))" "bound_identity (heap s (?tbl ! p)) = Some (es ! p)"
    using st p pk by (auto simp: settled_def)
  have len: "length (rc_controllers (moved_in_place s p)) = length ?tbl"
    using pk by (simp add: moved_in_place_def)
  have at: "rc_controllers (moved_in_place s p) ! p = Some (?tbl ! p)"
    using pk by (simp add: moved_in_place_def nth_append)
  have before: "\<forall>j<p. rc_controllers (moved_in_place s p) ! j = None"
    by (simp add: moved_in_place_def nth_append)
  show ?thesis
    unfolding find_open_controller_index_def len
    by (rule find_first_at)
       (use pk at before op in \<open>auto simp: getIsOpen_def matchesDeviceEnumerator_def
           moved_in_place_def\<close>)
qed

lemma moved_in_place_step:
  assumes st: "settled es s" and p: "p < length es"
  shows "enumerator_step open_ok (es ! p) (moved_in_place s p) = Some (True, moved_in_place s (Suc p))"
proof -
  let ?tbl = "m_controllers s"
  have pk: "p < length ?tbl" using st p by (simp add: settled_def)
  have at: "rc_controllers (moved_in_place s p) ! p = Some (?tbl ! p)"
    using pk by (simp add: moved_in_place_def nth_append)
  have t: "(map Some (take p ?tbl) @ replicate (length ?tbl - p) None)[p := Some (?tbl ! p)]
      = map Some (take (Suc p) ?tbl) @ replicate (length ?tbl - Suc p) None"
    using store_next [of "take p ?tbl" p "length ?tbl" "?tbl ! p"] pk
    by (simp add: take_Suc_conv_app_nth)
  have c: "(replicate p None @ drop p (map Some ?tbl))[p := None]
      = replicate (Suc p) None @ drop (Suc p) (map Some ?tbl)"
    using clear_next [of p "map Some ?tbl"] pk by simp
  show ?thesis
    unfolding enumerator_step_def Let_def moved_in_place_find [OF st p]
    using at pk t c
    by (simp add: store_temp_def clear_cell_def moved_in_place_def)
qed

lemma moved_in_place_enumerate:
  "settled es s \<Longrightarrow> rest = drop p es \<Longrightarrow> p \<le> length es \<Longrightarrow>
   enumerate_devices open_ok rest (moved_in_place s p) = Some (moved_in_place s (length es))"
proof (induction rest arbitrary: p)
  case Nil
  then have "p = length es" by simp
  then show ?case by simp
next
  case (Cons e rest)
  from Cons.prems(2) have p: "p < length es"
    by (metis Cons.prems(3) drop_all le_neq_implies_less list.distinct(1) order_refl)
  have e: "e = es ! p" and r: "rest = drop (Suc p) es"
    using Cons.prems(2) p by (metis Cons_nth_drop_Suc list.inject)+
  have "enumerate_devices open_ok rest (moved_in_place s (Suc p))
          = Some (moved_in_place s (length es))"
    using Cons.IH [OF Cons.prems(1) r] p by simp
  then show ?case using moved_in_place_step [OF Cons.prems(1) p, of open_ok] e by simp
qed

lemma moved_in_place_skip:
  assumes "i < p"
  shows "remaining_step i (moved_in_place s p) = Some (moved_in_place s p)"
  using assms by (simp add: remaining_step_def moved_in_place_def nth_append)

lemma moved_in_place_skip_all:
  "\<forall>i\<in>set is. i < p \<Longrightarrow> collect_remaining is (moved_in_place s p) = Some (moved_in_place s p)"
  by (induction "is") (simp_all add: moved_in_place_skip)

lemma record_id_update: "psmove_id c = n \<Longrightarrow> c\<lparr>psmove_id := n\<rparr> = c"
  by simp

lemma moved_in_place_remaining:
  assumes st: "settled es s" and lo: "length es \<le> i" and hi: "i < length (m_controllers s)"
  shows "remaining_step i (moved_in_place s i) = Some (moved_in_place s (Suc i))"
proof -
  let ?tbl = "m_controllers s"
  have cl: "\<not> is_open (heap s (?tbl ! i))" "psmove_id (heap s (?tbl ! i)) = int i"
    using st lo hi by (auto simp: settled_def)
  have at: "rc_controllers (moved_in_place s i) ! i = Some (?tbl ! i)"
    using hi by (simp add: moved_in_place_def nth_append)
  have t: "(map Some (take i ?tbl) @ replicate (length ?tbl - i) None)[i := Some (?tbl ! i)]
      = map Some (take (Suc i) ?tbl) @ replicate (length ?tbl - Suc i) None"
    using store_next [of "take i ?tbl" i "length ?tbl" "?tbl ! i"] hi
    by (simp add: take_Suc_conv_app_nth)
  have c: "(replicate i None @ drop i (map Some ?tbl))[i := None]
      = replicate (Suc i) None @ drop (Suc i) (map Some ?tbl)"
    using clear_next [of i "map Some ?tbl"] hi by simp
  have h: "(heap s)(?tbl ! i := setPSMoveID (int i) (heap s (?tbl ! i))) = heap s"
    using cl(2) by (simp add: setPSMoveID_def record_id_update)
  show ?thesis
    unfolding remaining_step_def Let_def
    using at hi t c cl(1) h
    by (simp add: store_temp_def clear_cell_def moved_in_place_def getIsOpen_def)
qed

lemma moved_in_place_collect:
  "settled es s \<Longrightarrow> length es \<le> i \<Longrightarrow> i \<le> length (m_controllers s) \<Longrightarrow>
   n = length (m_controllers s) - i \<Longrightarrow>
   collect_remaining [i..<length (m_controllers s)] (moved_in_place s i)
     = Some (moved_in_place s (length (m_controllers s)))"
proof (induction n arbitrary: i)
  case 0
  then have "i = length (m_controllers s)" by simp
  then show ?case by simp
next
  case (Suc n)
  then have hi: "i < length (m_controllers s)" by simp
  have "collect_remaining [Suc i..<length (m_controllers s)] (moved_in_place s (Suc i))
     = Some (moved_in_place s (length (m_controllers s)))"
    using Suc.IH [of "Suc i"] Suc.prems hi by simp
  then show ?case
    using moved_in_place_remaining [OF Suc.prems(1,2) hi] hi by (simp add: upt_conv_Cons)
qed

lemma collect_remaining_append:
  "collect_remaining (xs @ ys) r =
     (case collect_remaining xs r of None \<Rightarrow> None | Some r' \<Rightarrow> collect_remaining ys r')"
  by (induction xs arbitrary: r) (auto split: option.splits)

lemma settled_pass_is_identity:
  assumes st: "settled es s"
  shows "update_connected_controllers es open_ok s = Some s"
proof -
  let ?k = "length (m_controllers s)"
  have le: "length es \<le> ?k" using st by (simp add: settled_def)
  have e: "enumerate_devices open_ok es (start_reconnect s) = Some (moved_in_place s (length es))"
    using moved_in_place_enumerate [OF st, of es 0 open_ok] by (simp add: moved_in_place_start)
  have split: "[0..<?k] = [0..<length es] @ [length es..<?k]"
    using le by (metis le_add_diff_inverse upt_add_eq_append zero_le)
  have c: "collect_remaining [0..<?k] (moved_in_place s (length es))
      = Some (moved_in_place s ?k)"
    unfolding split collect_remaining_append
    using moved_in_place_skip_all [of "[0..<length es]" "length es" s]
      moved_in_place_collect [OF st order_refl le refl]
    by simp
  have steps: "reconnect_steps es open_ok s = Some (moved_in_place s ?k)"
    using e c by (simp add: reconnect_steps_def k_max_psmove_controllers_def)
  from reconnect_steps_result [of es open_ok s] steps
  obtain placed where tmp: "rc_temp (moved_in_place s ?k) = map Some placed"
    and res: "update_connected_controllers es open_ok s =
          Some (s\<lparr>m_controllers := placed, heap := rc_heap (moved_in_place s ?k),
                  server_log := server_log s @ rc_log (moved_in_place s ?k)\<rparr>)"
    by auto
  have "map Some placed = map Some (m_controllers s)"
    using tmp by (simp add: moved_in_place_def)
  then have "placed = m_controllers s" by (simp add: inj_map_eq_map)
  then show ?thesis using res by (simp add: moved_in_place_def)
qed

subsection \<open>A pass without errors settles the manager\<close>


lemma cell_kept:
  assumes f: "step_frame r r'" and inv: "rc_inv k (mset tbl) r" and d: "distinct tbl"
    and p: "p < rc_new_index r" and a: "rc_temp r ! p = Some a"
  shows "rc_temp r' ! p = Some a \<and> rc_heap r' a = rc_heap r a"
proof -
  have "Some a \<notin> set (rc_controllers r)"
    by (rule rc_inv_placed_not_remaining [OF inv d p a])
  with f p a show ?thesis by (simp add: step_frame_def)
qed

lemma enumerator_step_placed:
  assumes st: "enumerator_step open_ok e r = Some (True, r')"
    and ok: "open_ok (rc_new_index r)"
  shows "rc_new_index r' = Suc (rc_new_index r) \<and>
     (\<exists>c. rc_temp r' ! rc_new_index r = Some c \<and> is_open (rc_heap r' c) \<and>
          bound_identity (rc_heap r' c) = Some e)"
proof (cases "find_open_controller_index (rc_controllers r) (rc_heap r) e")
  case (Some i)
  from find_open_SomeD [OF Some] obtain c where i: "i < length (rc_controllers r)"
    and c: "rc_controllers r ! i = Some c" and o: "getIsOpen (rc_heap r c)"
    and m: "matchesDeviceEnumerator (rc_heap r c) e" by blast
  show ?thesis
    using st Some c o m
    by (auto simp: enumerator_step_def store_temp_def clear_cell_def Let_def
          getIsOpen_def matchesDeviceEnumerator_def setPSMoveID_def split: if_splits)
next
  case None
  note no_open = None
  show ?thesis
  proof (cases "find_first_closed_controller_index (rc_controllers r) (rc_heap r)")
    case (Some i)
    from find_closed_SomeD [OF Some] obtain c where i: "i < length (rc_controllers r)"
      and c: "rc_controllers r ! i = Some c" by blast
    show ?thesis
      using st Some no_open c ok
      by (auto simp: enumerator_step_def store_temp_def clear_cell_def Let_def
            open_controller_def setPSMoveID_def split: if_splits)
  next
    case None
    then show ?thesis using st no_open by (simp add: enumerator_step_def)
  qed
qed

lemma remaining_step_placed:
  assumes st: "remaining_step i r = Some r'" and c: "rc_controllers r ! i = Some c"
  shows "rc_new_index r' = Suc (rc_new_index r) \<and> rc_temp r' ! rc_new_index r = Some c \<and>
     \<not> is_open (rc_heap r' c) \<and> psmove_id (rc_heap r' c) = int (rc_new_index r)"
  using st c
  by (auto simp: remaining_step_def store_temp_def clear_cell_def Let_def getIsOpen_def
        close_controller_def setPSMoveID_def split: if_splits)

lemma enumerator_step_settles:
  assumes inv: "rc_inv k (mset tbl) r" and d: "distinct tbl"
    and cs: "cells_settled es r" and n: "rc_new_index r < length es"
    and e: "e = es ! rc_new_index r" and ok: "open_ok (rc_new_index r)"
    and st: "enumerator_step open_ok e r = Some (True, r')"
  shows "cells_settled es r'"
proof -
  have f: "step_frame r r'" by (rule enumerator_step_frame [OF st])
  from enumerator_step_placed [OF st ok] obtain c where n': "rc_new_index r' = Suc (rc_new_index r)"
    and c: "rc_temp r' ! rc_new_index r = Some c" "is_open (rc_heap r' c)"
      "bound_identity (rc_heap r' c) = Some e" by blast
  show ?thesis
    unfolding cells_settled_def
  proof (intro allI impI)
    fix p assume "p < rc_new_index r'"
    then consider "p < rc_new_index r" | "p = rc_new_index r" using n' by linarith
    then show "\<exists>a. rc_temp r' ! p = Some a \<and>
        (if p < length es
         then is_open (rc_heap r' a) \<and> bound_identity (rc_heap r' a) = Some (es ! p)
         else \<not> is_open (rc_heap r' a) \<and> psmove_id (rc_heap r' a) = int p)"
    proof cases
      case 1
      with cs obtain a where a: "rc_temp r ! p = Some a"
        "if p < length es
         then is_open (rc_heap r a) \<and> bound_identity (rc_heap r a) = Some (es ! p)
         else \<not> is_open (rc_heap r a) \<and> psmove_id (rc_heap r a) = int p"
        unfolding cells_settled_def by blast
      from cell_kept [OF f inv d 1 a(1)] a(2) show ?thesis by auto
    next
      case 2
      with c e n show ?thesis by auto
    qed
  qed
qed

lemma remaining_step_settles:
  assumes inv: "rc_inv k (mset tbl) r" and d: "distinct tbl"
    and cs: "cells_settled es r" and n: "length es \<le> rc_new_index r"
    and i: "i < length (rc_controllers r)"
    and st: "remaining_step i r = Some r'"
  shows "cells_settled es r' \<and> length es \<le> rc_new_index r'"
proof (cases "rc_controllers r ! i")
  case None
  then have "r' = r" using st by (simp add: remaining_step_def)
  with cs n show ?thesis by simp
next
  case (Some c)
  have f: "step_frame r r'" by (rule remaining_step_frame [OF st i])
  from remaining_step_placed [OF st Some]
  have n': "rc_new_index r' = Suc (rc_new_index r)"
    and c: "rc_temp r' ! rc_new_index r = Some c" "\<not> is_open (rc_heap r' c)"
      "psmove_id (rc_heap r' c) = int (rc_new_index r)" by simp_all
  have "cells_settled es r'"
    unfolding cells_settled_def
  proof (intro allI impI)
    fix p assume "p < rc_new_index r'"
    then consider "p < rc_new_index r" | "p = rc_new_index r" using n' by linarith
    then show "\<exists>a. rc_temp r' ! p = Some a \<and>
        (if p < length es
         then is_open (rc_heap r' a) \<and> bound_identity (rc_heap r' a) = Some (es ! p)
         else \<not> is_open (rc_heap r' a) \<and> psmove_id (rc_heap r' a) = int p)"
    proof cases
      case 1
      with cs obtain a where a: "rc_temp r ! p = Some a"
        "if p < length es
         then is_open (rc_heap r a) \<and> bound_identity (rc_heap r a) = Some (es ! p)
         else \<not> is_open (rc_heap r a) \<and> psmove_id (rc_heap r a) = int p"
        unfolding cells_settled_def by blast
      from cell_kept [OF f inv d 1 a(1)] a(2) show ?thesis by auto
    next
      case 2
      with c n show ?thesis by auto
    qed
  qed
  with n n' show ?thesis by simp
qed

lemma enumerate_all_settles:
  "enumerate_all open_ok rest r = Some r' \<Longrightarrow> rc_inv k (mset tbl) r \<Longrightarrow> distinct tbl \<Longrightarrow>
   cells_settled es r \<Longrightarrow> rest = drop (rc_new_index r) es \<Longrightarrow> rc_new_index r \<le> length es \<Longrightarrow>
   \<forall>p<length es. open_ok p \<Longrightarrow>
   cells_settled es r' \<and> rc_new_index r' = length es"
proof (induction rest arbitrary: r)
  case Nil
  then show ?case by simp
next
  case (Cons e rest)
  let ?n = "rc_new_index r"
  from Cons.prems(5,6) have n: "?n < length es"
    by (metis drop_all le_neq_implies_less list.distinct(1) order_refl)
  have e: "e = es ! ?n" and r: "rest = drop (Suc ?n) es"
    using Cons.prems(5) n by (metis Cons_nth_drop_Suc list.inject)+
  from Cons.prems(1) obtain r1 where st: "enumerator_step open_ok e r = Some (True, r1)"
    and rest: "enumerate_all open_ok rest r1 = Some r'"
    by (cases "enumerator_step open_ok e r") (auto split: if_splits)
  have ok: "open_ok ?n" using Cons.prems(7) n by simp
  have cs1: "cells_settled es r1"
    by (rule enumerator_step_settles [OF Cons.prems(2,3,4) n e ok st])
  have n1: "rc_new_index r1 = Suc ?n" using enumerator_step_placed [OF st ok] by simp
  from enumerator_step_inv [OF Cons.prems(2), of open_ok e] st
  have inv1: "rc_inv k (mset tbl) r1" by simp
  show ?case
    using Cons.IH [OF rest inv1 Cons.prems(3) cs1] r n n1 Cons.prems(7) by simp
qed

lemma collect_remaining_settles:
  "collect_remaining is r = Some r' \<Longrightarrow> rc_inv k (mset tbl) r \<Longrightarrow> distinct tbl \<Longrightarrow>
   cells_settled es r \<Longrightarrow> length es \<le> rc_new_index r \<Longrightarrow> \<forall>i\<in>set is. i < k \<Longrightarrow>
   cells_settled es r'"
proof (induction "is" arbitrary: r)
  case Nil
  then show ?case by simp
next
  case (Cons i "is")
  from Cons.prems(1) obtain r1 where st: "remaining_step i r = Some r1"
    and rest: "collect_remaining is r1 = Some r'"
    by (cases "remaining_step i r") auto
  have i: "i < length (rc_controllers r)"
    using Cons.prems(6) rc_inv_length_controllers [OF Cons.prems(2)] by simp
  from remaining_step_settles [OF Cons.prems(2,3,4,5) i st]
  have cs1: "cells_settled es r1" and n1: "length es \<le> rc_new_index r1" by simp_all
  from remaining_step_inv [OF Cons.prems(2) i] st have inv1: "rc_inv k (mset tbl) r1" by simp
  show ?case using Cons.IH [OF rest inv1 Cons.prems(3) cs1 n1] Cons.prems(6) by simp
qed

lemma enumerator_step_break:
  "enumerator_step open_ok e r = Some (False, r') \<Longrightarrow>
   Log_too_many_controllers \<in> set (rc_log r')"
  by (auto simp: enumerator_step_def store_temp_def clear_cell_def Let_def open_controller_def
        split: option.splits if_splits)

lemma enumerate_devices_no_break:
  "enumerate_devices open_ok es r = Some r' \<Longrightarrow>
   Log_too_many_controllers \<notin> set (rc_log r') \<Longrightarrow>
   enumerate_all open_ok es r = Some r'"
proof (induction es arbitrary: r)
  case Nil
  then show ?case by simp
next
  case (Cons e es)
  from Cons.prems(1) obtain go_on r1 where st: "enumerator_step open_ok e r = Some (go_on, r1)"
    by (cases "enumerator_step open_ok e r") auto
  show ?case
  proof (cases go_on)
    case True
    with Cons.prems(1) st have "enumerate_devices open_ok es r1 = Some r'" by simp
    from Cons.IH [OF this Cons.prems(2)] st True show ?thesis by simp
  next
    case False
    with Cons.prems(1) st have "r' = r1" by simp
    with st False have "enumerator_step open_ok e r = Some (False, r')" by simp
    from enumerator_step_break [OF this] Cons.prems(2) show ?thesis by simp
  qed
qed


lemma clean_pass_settles:
  assumes d: "distinct (m_controllers s)"
    and first: "update_connected_controllers es open_ok s = Some s1"
    and all_ok: "\<forall>p<length es. open_ok p"
    and no_cap: "Log_too_many_controllers \<notin> set (drop (length (server_log s)) (server_log s1))"
  shows "settled es s1"
proof -
  let ?k = "length (m_controllers s)"
  let ?M = "mset (m_controllers s)"
  have inv0: "rc_inv ?k ?M (start_reconnect s)" by (rule rc_inv_start)
  from finish_pass [OF inv0 refl, of open_ok es]
  obtain r1 r2 s' where r1: "enumerate_devices open_ok es (start_reconnect s) = Some r1"
    and r2: "collect_remaining [0..<?k] r1 = Some r2"
    and f2: "step_frame r1 r2"
    and inv1: "rc_inv ?k ?M r1"
    and res: "update_connected_controllers es open_ok s = Some s'"
    and tmp: "rc_temp r2 = map Some (m_controllers s')"
    and len: "length (m_controllers s') = ?k"
    and hp: "heap s' = rc_heap r2" and lg: "server_log s' = server_log s @ rc_log r2"
    by blast
  have s': "s' = s1" using res first by simp
  have "Log_too_many_controllers \<notin> set (rc_log r2)" using no_cap lg s' by simp
  moreover from f2 obtain lines where "rc_log r2 = rc_log r1 @ lines"
    by (auto simp: step_frame_def)
  ultimately have "Log_too_many_controllers \<notin> set (rc_log r1)" by simp
  from enumerate_devices_no_break [OF r1 this]
  have all: "enumerate_all open_ok es (start_reconnect s) = Some r1" .
  have cs0: "cells_settled es (start_reconnect s)"
    by (simp add: cells_settled_def start_reconnect_def)
  have n0: "rc_new_index (start_reconnect s) = 0" by (simp add: start_reconnect_def)
  from enumerate_all_settles [OF all inv0 d cs0 _ _ all_ok] n0
  have cs1: "cells_settled es r1" and n1: "rc_new_index r1 = length es" by simp_all
  have le: "length es \<le> ?k" using inv1 n1 by (simp add: rc_inv_def)
  have "\<forall>i\<in>set [0..<?k]. i < ?k" by simp
  from collect_remaining_settles [OF r2 inv1 d cs1 _ this] n1
  have cs2: "cells_settled es r2" by simp
  from reconnect_steps_result [of es open_ok s] r1 r2
  have n2: "rc_new_index r2 = ?k"
    by (auto simp: reconnect_steps_def k_max_psmove_controllers_def)
  show ?thesis
    unfolding settled_def
  proof (intro conjI allI impI)
    show "length es \<le> length (m_controllers s1)" using le len s' by simp
    fix p assume p: "p < length (m_controllers s1)"
    then have pk: "p < ?k" using len s' by simp
    then have "p < rc_new_index r2" using n2 by simp
    with cs2 obtain a where a: "rc_temp r2 ! p = Some a"
      "if p < length es
       then is_open (rc_heap r2 a) \<and> bound_identity (rc_heap r2 a) = Some (es ! p)
       else \<not> is_open (rc_heap r2 a) \<and> psmove_id (rc_heap r2 a) = int p"
      unfolding cells_settled_def by blast
    have "a = m_controllers s1 ! p" using a(1) tmp p s' by simp
    with a(2) hp s'
    have "if p < length es
       then is_open (rc_heap r2 (m_controllers s1 ! p)) \<and>
            bound_identity (rc_heap r2 (m_controllers s1 ! p)) = Some (es ! p)
       else \<not> is_open (rc_heap r2 (m_controllers s1 ! p)) \<and>
            psmove_id (rc_heap r2 (m_controllers s1 ! p)) = int p"
      by blast
    with hp s'
    show "if p < length es
       then is_open (heap s1 (m_controllers s1 ! p)) \<and>
            bound_identity (heap s1 (m_controllers s1 ! p)) = Some (es ! p)
       else \<not> is_open (heap s1 (m_controllers s1 ! p)) \<and>
            psmove_id (heap s1 (m_controllers s1 ! p)) = int p"
      by simp
  qed
qed


subsection \<open>A pass that only reorders\<close>


lemma same_devices_facts:
  assumes d: "distinct (m_controllers s)" and sd: "same_devices es s"
    and de: "distinct es"
  shows open_in_snapshot:
      "\<And>i. i < length (m_controllers s) \<Longrightarrow> is_open (heap s (m_controllers s ! i)) \<Longrightarrow>
        \<exists>p<length es. bound_identity (heap s (m_controllers s ! i)) = Some (es ! p)"
    and old_cell_bound:
      "\<And>p. p < length es \<Longrightarrow>
        old_cell s (es ! p) < length (m_controllers s) \<and>
        is_open (heap s (m_controllers s ! old_cell s (es ! p))) \<and>
        bound_identity (heap s (m_controllers s ! old_cell s (es ! p))) = Some (es ! p)"
    and old_cell_unique:
      "\<And>i p. i < length (m_controllers s) \<Longrightarrow> is_open (heap s (m_controllers s ! i)) \<Longrightarrow>
        bound_identity (heap s (m_controllers s ! i)) = Some (es ! p) \<Longrightarrow> p < length es \<Longrightarrow>
        old_cell s (es ! p) = i"
proof -
  let ?tbl = "m_controllers s"
  let ?opens = "filter (\<lambda>a. is_open (heap s a)) ?tbl"
  let ?B = "map (\<lambda>a. bound_identity (heap s a)) ?opens"
  have ms: "mset ?B = mset (map Some es)" using sd by (simp add: same_devices_def)
  have setB: "set ?B = Some ` set es" using ms by (metis set_map mset_eq_setD)
  have "distinct (map Some es)" using de by (simp add: distinct_map)
  then have dB: "distinct ?B" using ms by (metis mset_eq_imp_distinct_iff)
  then have inj: "inj_on (\<lambda>a. bound_identity (heap s a)) (set ?opens)"
    by (simp add: distinct_map)
  have uniq: "i = j"
    if "i < length ?tbl" "j < length ?tbl" "is_open (heap s (?tbl ! i))"
      "is_open (heap s (?tbl ! j))"
      "bound_identity (heap s (?tbl ! i)) = bound_identity (heap s (?tbl ! j))" for i j
  proof -
    have "?tbl ! i \<in> set ?opens" "?tbl ! j \<in> set ?opens" using that by simp_all
    with inj that(5) have "?tbl ! i = ?tbl ! j" by (meson inj_onD)
    with d that(1,2) show ?thesis by (simp add: nth_eq_iff_index_eq)
  qed
  show a: "\<exists>p<length es. bound_identity (heap s (?tbl ! i)) = Some (es ! p)"
    if "i < length ?tbl" "is_open (heap s (?tbl ! i))" for i
  proof -
    have "?tbl ! i \<in> set ?opens" using that by simp
    then have "bound_identity (heap s (?tbl ! i)) \<in> set ?B" by simp
    with setB obtain e where "e \<in> set es" "bound_identity (heap s (?tbl ! i)) = Some e"
      by auto
    then show ?thesis by (metis in_set_conv_nth)
  qed
  show b: "old_cell s (es ! p) < length ?tbl \<and>
        is_open (heap s (?tbl ! old_cell s (es ! p))) \<and>
        bound_identity (heap s (?tbl ! old_cell s (es ! p))) = Some (es ! p)"
    if p: "p < length es" for p
  proof -
    have "Some (es ! p) \<in> set ?B" using setB p by simp
    then obtain a where a: "a \<in> set ?tbl" "is_open (heap s a)"
      "bound_identity (heap s a) = Some (es ! p)" by auto
    then obtain j where j: "j < length ?tbl" "?tbl ! j = a" by (metis in_set_conv_nth)
    have "find_open_controller_index (map Some ?tbl) (heap s) (es ! p) \<noteq> None"
      unfolding find_open_controller_index_def
      using j a by (auto simp: find_None_iff getIsOpen_def matchesDeviceEnumerator_def
          intro!: bexI [of _ j])
    then obtain i where i: "find_open_controller_index (map Some ?tbl) (heap s) (es ! p) = Some i"
      by auto
    from find_open_SomeD [OF i] have "i < length ?tbl"
      "is_open (heap s (?tbl ! i))" "bound_identity (heap s (?tbl ! i)) = Some (es ! p)"
      by (auto simp: getIsOpen_def matchesDeviceEnumerator_def)
    moreover have "old_cell s (es ! p) = i" using i by (simp add: old_cell_def)
    ultimately show ?thesis by simp
  qed
  show "old_cell s (es ! p) = i"
    if "i < length ?tbl" "is_open (heap s (?tbl ! i))"
      "bound_identity (heap s (?tbl ! i)) = Some (es ! p)" "p < length es" for i p
    using uniq [of "old_cell s (es ! p)" i] b [OF that(4)] that by simp
qed

lemma moved_lines_Suc:
  "moved_lines s es (Suc p) =
     moved_lines s es p @
       (if old_cell s (es ! p) \<noteq> p then [Log_moved (old_cell s (es ! p)) p] else [])"
  by (simp add: moved_lines_def)

lemma reorder_inv_start: "reorder_inv s es 0 (start_reconnect s)"
  by (simp add: reorder_inv_def start_reconnect_def moved_lines_def)


lemma nth_not_in_take:
  assumes "distinct es" "p < length es"
  shows "es ! p \<notin> set (take p es)"
proof
  assume "es ! p \<in> set (take p es)"
  then obtain q where q: "q < length (take p es)" "take p es ! q = es ! p"
    by (metis in_set_conv_nth)
  then have "q < p" "es ! q = es ! p" by simp_all
  with assms show False by (simp add: nth_eq_iff_index_eq)
qed

lemma reorder_step:
  assumes d: "distinct (m_controllers s)"
    and ids: "\<forall>i<length (m_controllers s). psmove_id (heap s (m_controllers s ! i)) = int i"
    and sd: "same_devices es s" and de: "distinct es"
    and inv: "rc_inv (length (m_controllers s)) (mset (m_controllers s)) r"
    and ri: "reorder_inv s es p r" and p: "p < length es"
  shows "\<exists>r'. enumerator_step open_ok (es ! p) r = Some (True, r') \<and> reorder_inv s es (Suc p) r'"
proof -
  let ?tbl = "m_controllers s"
  let ?k = "length ?tbl"
  let ?e = "es ! p"
  let ?i = "old_cell s ?e"
  let ?c = "?tbl ! ?i"
  let ?cs = "rc_controllers r"
  note facts = same_devices_facts [OF d sd de]
  from facts(2) [OF p] have ik: "?i < ?k" and oi: "is_open (heap s ?c)"
    and bi: "bound_identity (heap s ?c) = Some ?e" by simp_all
  from ri have n: "rc_new_index r = p" and len: "length ?cs = ?k"
    and cells: "\<forall>i<?k. ?cs ! i =
          (if is_open (heap s (?tbl ! i)) \<and>
              bound_identity (heap s (?tbl ! i)) \<in> Some ` set (take p es)
           then None else Some (?tbl ! i))"
    and untouched: "\<forall>i<?k. ?cs ! i \<noteq> None \<longrightarrow> rc_heap r (?tbl ! i) = heap s (?tbl ! i)"
    and placed: "\<forall>q<p. rc_temp r ! q = Some (?tbl ! old_cell s (es ! q)) \<and>
        rc_heap r (?tbl ! old_cell s (es ! q))
          = (heap s (?tbl ! old_cell s (es ! q)))\<lparr>psmove_id := int q\<rparr>"
    and lg: "rc_log r = moved_lines s es p"
    unfolding reorder_inv_def by blast+
  have notin: "?e \<notin> set (take p es)" by (rule nth_not_in_take [OF de p])
  have ci: "?cs ! ?i = Some ?c" using cells ik bi notin by auto
  have hi: "rc_heap r ?c = heap s ?c" using untouched ik ci by simp
  have cell_cases: "?cs ! j = None \<or> (?cs ! j = Some (?tbl ! j) \<and> rc_heap r (?tbl ! j) = heap s (?tbl ! j))"
    if "j < ?k" for j
    using cells untouched that by (cases "?cs ! j = None") auto
  have only_i: "j = ?i"
    if j: "j < ?k" and cj: "?cs ! j = Some c" and o: "getIsOpen (rc_heap r c)"
      and m: "matchesDeviceEnumerator (rc_heap r c) ?e" for j c
  proof -
    from cell_cases [OF j] cj have "c = ?tbl ! j" "rc_heap r (?tbl ! j) = heap s (?tbl ! j)"
      by auto
    with o m have "is_open (heap s (?tbl ! j))" "bound_identity (heap s (?tbl ! j)) = Some ?e"
      by (simp_all add: getIsOpen_def matchesDeviceEnumerator_def)
    from facts(3) [OF j this p] show ?thesis by simp
  qed
  have fo: "find_open_controller_index ?cs (rc_heap r) ?e = Some ?i"
    unfolding find_open_controller_index_def len
  proof (rule find_first_at)
    show "?i < ?k" by (rule ik)
    show "case ?cs ! ?i of None \<Rightarrow> False
          | Some c \<Rightarrow> getIsOpen (rc_heap r c) \<and> matchesDeviceEnumerator (rc_heap r c) ?e"
      using ci hi oi bi by (simp add: getIsOpen_def matchesDeviceEnumerator_def)
    show "\<forall>j<?i. \<not> (case ?cs ! j of None \<Rightarrow> False
          | Some c \<Rightarrow> getIsOpen (rc_heap r c) \<and> matchesDeviceEnumerator (rc_heap r c) ?e)"
    proof (intro allI impI)
      fix j assume j: "j < ?i"
      then have jk: "j < ?k" using ik by simp
      show "\<not> (case ?cs ! j of None \<Rightarrow> False
          | Some c \<Rightarrow> getIsOpen (rc_heap r c) \<and> matchesDeviceEnumerator (rc_heap r c) ?e)"
      proof (cases "?cs ! j")
        case None
        then show ?thesis by simp
      next
        case (Some c)
        with only_i [OF jk Some] j show ?thesis by auto
      qed
    qed
  qed
  have lt: "p < length (rc_temp r)"
    using rc_inv_in_bounds [OF inv _ ci] ik len n rc_inv_length_temp [OF inv] by simp
  define h' where "h' = (if p \<noteq> ?i
      then (rc_heap r)(?c := setPSMoveID (int p) (rc_heap r ?c)) else rc_heap r)"
  define l' where "l' = (if p \<noteq> ?i then rc_log r @ [Log_moved ?i p] else rc_log r)"
  define r' where "r' = r\<lparr>rc_heap := h', rc_log := l', rc_temp := (rc_temp r)[p := Some ?c],
      rc_controllers := ?cs[?i := None], rc_new_index := p + 1\<rparr>"
  have st: "enumerator_step open_ok ?e r = Some (True, r')"
    unfolding enumerator_step_def Let_def fo
    using ci lt n ik len
    by (simp add: store_temp_def clear_cell_def r'_def h'_def l'_def)
  have f_n: "rc_new_index r' = Suc p" and f_cs: "rc_controllers r' = ?cs[?i := None]"
    and f_t: "rc_temp r' = (rc_temp r)[p := Some ?c]" and f_h: "rc_heap r' = h'"
    and f_l: "rc_log r' = l'"
    by (simp_all add: r'_def)
  have heap_c: "h' ?c = (heap s ?c)\<lparr>psmove_id := int p\<rparr>"
  proof (cases "p = ?i")
    case True
    then have "psmove_id (heap s ?c) = int p" using ids ik by simp
    then have "(heap s ?c)\<lparr>psmove_id := int p\<rparr> = heap s ?c" by simp
    with True hi show ?thesis by (simp add: h'_def)
  next
    case False
    then show ?thesis using hi by (simp add: h'_def setPSMoveID_def)
  qed
  have heap_other: "h' a = rc_heap r a" if "a \<noteq> ?c" for a
    using that by (simp add: h'_def)
  have tk: "set (take (Suc p) es) = insert ?e (set (take p es))"
    using p by (simp add: take_Suc_conv_app_nth)
  have cells': "rc_controllers r' ! j =
          (if is_open (heap s (?tbl ! j)) \<and>
              bound_identity (heap s (?tbl ! j)) \<in> Some ` set (take (Suc p) es)
           then None else Some (?tbl ! j))" if j: "j < ?k" for j
  proof (cases "j = ?i")
    case True
    then show ?thesis using f_cs ik len oi bi tk by simp
  next
    case False
    have "\<not> (is_open (heap s (?tbl ! j)) \<and> bound_identity (heap s (?tbl ! j)) = Some ?e)"
      using facts(3) [OF j _ _ p] False by auto
    then have "(is_open (heap s (?tbl ! j)) \<and>
              bound_identity (heap s (?tbl ! j)) \<in> Some ` set (take (Suc p) es))
        = (is_open (heap s (?tbl ! j)) \<and>
              bound_identity (heap s (?tbl ! j)) \<in> Some ` set (take p es))"
      unfolding tk by auto
    moreover have "rc_controllers r' ! j = ?cs ! j" using f_cs False by simp
    ultimately show ?thesis using cells j by simp
  qed
  have untouched': "rc_heap r' (?tbl ! j) = heap s (?tbl ! j)"
    if j: "j < ?k" and nn: "rc_controllers r' ! j \<noteq> None" for j
  proof -
    have ne: "j \<noteq> ?i" using nn f_cs ik len by auto
    then have "?cs ! j \<noteq> None" using nn f_cs by simp
    then have "rc_heap r (?tbl ! j) = heap s (?tbl ! j)" using untouched j by simp
    moreover have "?tbl ! j \<noteq> ?c" using ne d j ik by (simp add: nth_eq_iff_index_eq)
    ultimately show ?thesis using heap_other f_h by simp
  qed
  have placed': "rc_temp r' ! q = Some (?tbl ! old_cell s (es ! q)) \<and>
        rc_heap r' (?tbl ! old_cell s (es ! q))
          = (heap s (?tbl ! old_cell s (es ! q)))\<lparr>psmove_id := int q\<rparr>"
    if q: "q < Suc p" for q
  proof (cases "q = p")
    case True
    then show ?thesis using f_t f_h lt heap_c by simp
  next
    case False
    with q have qp: "q < p" by simp
    then have ql: "q < length es" using p by simp
    from facts(2) [OF ql] have oq: "old_cell s (es ! q) < ?k"
      "bound_identity (heap s (?tbl ! old_cell s (es ! q))) = Some (es ! q)" by simp_all
    have "es ! q \<noteq> ?e" using de ql p False by (simp add: nth_eq_iff_index_eq)
    then have "old_cell s (es ! q) \<noteq> ?i" using oq(2) bi by auto
    then have "?tbl ! old_cell s (es ! q) \<noteq> ?c"
      using d oq(1) ik by (simp add: nth_eq_iff_index_eq)
    then have "rc_heap r' (?tbl ! old_cell s (es ! q)) = rc_heap r (?tbl ! old_cell s (es ! q))"
      using heap_other f_h by simp
    moreover have "rc_temp r' ! q = rc_temp r ! q" using f_t False by simp
    ultimately show ?thesis using placed qp by simp
  qed
  have log': "rc_log r' = moved_lines s es (Suc p)"
    using f_l lg by (auto simp: l'_def moved_lines_Suc)
  have "reorder_inv s es (Suc p) r'"
    unfolding reorder_inv_def
    using f_n f_cs len cells' untouched' placed' log' by simp
  with st show ?thesis by blast
qed


lemma reorder_loop:
  assumes d: "distinct (m_controllers s)"
    and ids: "\<forall>i<length (m_controllers s). psmove_id (heap s (m_controllers s ! i)) = int i"
    and sd: "same_devices es s" and de: "distinct es"
  shows "rest = drop p es \<Longrightarrow> p \<le> length es \<Longrightarrow>
    rc_inv (length (m_controllers s)) (mset (m_controllers s)) r \<Longrightarrow>
    reorder_inv s es p r \<Longrightarrow>
    \<exists>r'. enumerate_devices open_ok rest r = Some r' \<and> reorder_inv s es (length es) r'"
proof (induction rest arbitrary: p r)
  case Nil
  then have "p = length es" by simp
  with Nil show ?case by simp
next
  case (Cons e rest)
  from Cons.prems(1,2) have p: "p < length es"
    by (metis drop_all le_neq_implies_less list.distinct(1) order_refl)
  have e: "e = es ! p" and r: "rest = drop (Suc p) es"
    using Cons.prems(1) p by (metis Cons_nth_drop_Suc list.inject)+
  from reorder_step [OF d ids sd de Cons.prems(3,4) p, of open_ok]
  obtain r1 where st: "enumerator_step open_ok (es ! p) r = Some (True, r1)"
    and ri1: "reorder_inv s es (Suc p) r1" by blast
  from enumerator_step_inv [OF Cons.prems(3), of open_ok "es ! p"] st
  have inv1: "rc_inv (length (m_controllers s)) (mset (m_controllers s)) r1" by simp
  from Cons.IH [OF r _ inv1 ri1] p
  obtain r' where "enumerate_devices open_ok rest r1 = Some r'" "reorder_inv s es (length es) r'"
    by auto
  with st e show ?case by simp
qed

lemma remaining_step_closed:
  assumes rc: "rest_closed r" and st: "remaining_step i r = Some r'"
    and i: "i < length (rc_controllers r)"
  shows "rest_closed r' \<and> rc_log r' = rc_log r"
proof (cases "rc_controllers r ! i")
  case None
  then have "r' = r" using st by (simp add: remaining_step_def)
  with rc show ?thesis by simp
next
  case (Some c)
  have "Some c \<in> set (rc_controllers r)" by (rule nth_in_set_Some [OF i Some])
  with rc have cl: "\<not> getIsOpen (rc_heap r c)" by (simp add: rest_closed_def getIsOpen_def)
  from st Some cl have
    h: "rc_heap r' = (rc_heap r)(c := setPSMoveID (int (rc_new_index r)) (rc_heap r c))"
    and l: "rc_log r' = rc_log r"
    and cs: "rc_controllers r' = (rc_controllers r)[i := None]"
    by (auto simp: remaining_step_def store_temp_def clear_cell_def Let_def split: if_splits)
  have "\<not> is_open (rc_heap r' a)" if "Some a \<in> set (rc_controllers r')" for a
  proof -
    from that cs have "Some a \<in> set (rc_controllers r)" by (auto dest: set_update_None)
    with rc have "\<not> is_open (rc_heap r a)" by (simp add: rest_closed_def)
    then show ?thesis using h cl by (simp add: setPSMoveID_def getIsOpen_def)
  qed
  with l show ?thesis by (simp add: rest_closed_def)
qed

lemma collect_remaining_closed:
  "collect_remaining is r = Some r' \<Longrightarrow> rest_closed r \<Longrightarrow>
   \<forall>i\<in>set is. i < length (rc_controllers r) \<Longrightarrow> rc_log r' = rc_log r"
proof (induction "is" arbitrary: r)
  case Nil
  then show ?case by simp
next
  case (Cons i "is")
  from Cons.prems(1) obtain r1 where st: "remaining_step i r = Some r1"
    and rest: "collect_remaining is r1 = Some r'"
    by (cases "remaining_step i r") auto
  have i: "i < length (rc_controllers r)" using Cons.prems(3) by simp
  from remaining_step_closed [OF Cons.prems(2) st i]
  have rc1: "rest_closed r1" and l1: "rc_log r1 = rc_log r" by simp_all
  have "length (rc_controllers r1) = length (rc_controllers r)"
    using remaining_step_controllers [OF st] by simp
  with Cons.prems(3) have "\<forall>i\<in>set is. i < length (rc_controllers r1)" by simp
  from Cons.IH [OF rest rc1 this] l1 show ?case by simp
qed


subsection \<open>A service that publishes a frame in every call\<close>


lemma busy_first:
  "\<exists>s1. update 1000000 replies_triangle_down [''A''] opens_all one_controller_service = Some s1 \<and>
      busy 0 s1"
proof -
  let ?u = "update 1000000 replies_triangle_down [''A''] opens_all one_controller_service"
  have cfg: "m_config one_controller_service = Some zero_poll_config"
    by (simp add: one_controller_service_def startup_def)
  have ok: "seq_ok one_controller_service"
    by (simp add: one_controller_service_def startup_def new_ControllerManagerImpl_def seq_ok_def)
  from update_seq_ok [OF cfg ok, of 1000000 replies_triangle_down "[''A'']" opens_all]
  obtain s1 where s1: "?u = Some s1" "seq_ok s1" "m_config s1 = Some zero_poll_config" by blast
  have ev: "map_option m_controllers ?u = Some [0]"
    "map_option (is_open \<circ> (\<lambda>s. heap s 0)) ?u = Some True"
    "map_option m_last_poll_time ?u = Some 1000000"
    "map_option m_last_reconnect_time ?u = Some 1000000"
    "map_option published ?u = Some []"
    by (simp_all add: one_controller_service_def zero_poll_config_def
      update_def total_milliseconds_def Let_def poll_open_controllers_def poll_controller_def
      update_connected_controllers_def reconnect_steps_def enumerator_step_def
      remaining_step_def store_temp_def clear_cell_def open_controller_def
      setPSMoveID_def example_defs)
  with s1 show ?thesis by (simp add: busy_def)
qed

lemma busy_step:
  assumes b: "busy n s"
  shows "\<exists>s'. update 1000000 replies_triangle_down [''A''] opens_all s = Some s' \<and> busy (Suc n) s'"
proof -
  from b have cfg: "m_config s = Some zero_poll_config" and tbl: "m_controllers s = [0]"
    and op: "is_open (heap s 0)" and pt: "m_last_poll_time s = 1000000"
    and rt: "m_last_reconnect_time s = 1000000" and ok: "seq_ok s"
    and len: "length (published s) = n"
    by (simp_all add: busy_def)
  have g1: "poll_guard zero_poll_config 1000000 s"
    using pt by (simp add: poll_guard_def zero_poll_config_def total_milliseconds_def)
  have g2: "\<not> reconnect_guard zero_poll_config 1000000 s"
    using rt by (simp add: reconnect_guard_def zero_poll_config_def total_milliseconds_def)
  let ?s1 = "poll_open_controllers replies_triangle_down s"
  have u: "update 1000000 replies_triangle_down [''A''] opens_all s = Some (stamp_poll 1000000 ?s1)"
    using update_unfold [OF cfg, of 1000000 replies_triangle_down "[''A'']" opens_all] g1 g2
    by simp
  have p1: "?s1 = poll_controller replies_triangle_down 0 s"
    using tbl by (simp add: poll_open_controllers_def k_max_psmove_controllers_def)
  have ok1: "seq_ok ?s1" by (rule poll_seq_ok [OF ok])
  have f: "m_config ?s1 = Some zero_poll_config" "m_controllers ?s1 = [0]"
    "m_last_reconnect_time ?s1 = 1000000"
    using cfg tbl rt by (simp_all add: poll_config poll_controllers poll_reconnect_time)
  have h: "is_open (heap ?s1 0)" and l: "length (published ?s1) = Suc n"
    unfolding p1 using tbl op len
    by (simp_all add: poll_controller_def getIsOpen_def readDataIn_def
        replies_triangle_down_def publish_controller_data_frame_def Let_def)
  have "busy (Suc n) (stamp_poll 1000000 ?s1)"
    using ok1 f h l by (simp add: busy_def stamp_poll_def seq_ok_def)
  with u show ?thesis by blast
qed

lemma busy_loop:
  "busy n s \<Longrightarrow> \<exists>s'. service_loop (replicate m busy_tick) s = Some s' \<and> busy (n + m) s'"
proof (induction m arbitrary: n s)
  case 0
  then show ?case by simp
next
  case (Suc m)
  from busy_step [OF Suc.prems] obtain s1
    where s1: "update 1000000 replies_triangle_down [''A''] opens_all s = Some s1"
      "busy (Suc n) s1" by blast
  from Suc.IH [OF s1(2)] obtain s' where "service_loop (replicate m busy_tick) s1 = Some s'"
    "busy (Suc n + m) s'" by blast
  with s1(1) show ?case by (simp add: busy_tick_def)
qed

lemma busy_service:
  "\<exists>s'. service_loop (replicate (Suc m) busy_tick) one_controller_service = Some s' \<and> busy m s'"
proof -
  from busy_first obtain s1
    where s1: "update 1000000 replies_triangle_down [''A''] opens_all one_controller_service = Some s1"
      "busy 0 s1" by blast
  from busy_loop [OF s1(2), of m] obtain s' where "service_loop (replicate m busy_tick) s1 = Some s'"
    "busy m s'" by auto
  with s1(1) show ?thesis by (simp add: busy_tick_def)
qed

lemma busy_last:
  assumes "busy (Suc n) s"
  shows "df_sequence_num (last (published s)) = of_nat n"
proof -
  from assms have len: "length (published s) = Suc n"
    and m: "map df_sequence_num (published s) = map of_nat [0..<length (published s)]"
    by (simp_all add: busy_def seq_ok_def)
  from len have ne: "published s \<noteq> []" by auto
  have "df_sequence_num (last (published s)) = last (map df_sequence_num (published s))"
    using ne by (simp add: last_map)
  also have "\<dots> = last (map of_nat [0..<Suc n])" using m len by simp
  also have "\<dots> = of_nat n" by simp
  finally show ?thesis .
qed

lemma seq_ok_signed:
  assumes "seq_ok s" "n < length (published s)" "n < 2 ^ 31"
  shows "sint (df_sequence_num (published s ! n)) = int n"
proof -
  from assms(1) have "map df_sequence_num (published s) = map of_nat [0..<length (published s)]"
    by (simp add: seq_ok_def)
  then have "map df_sequence_num (published s) ! n = map of_nat [0..<length (published s)] ! n"
    by simp
  then have "df_sequence_num (published s ! n) = of_nat n" using assms(2) by simp
  then show ?thesis using sint_of_nat_small [OF assms(3)] by simp
qed

section \<open>The claims\<close>

text \<open>
  C1. Every published frame should carry, for each of the eight buttons, the button's bit
  exactly when the button is down or pressed. The code computes that bitmask in a local
  variable and then stores the literal 0 in the frame. At the input below (one open
  controller, the read delivers a state with Triangle down) the local bitmask has the
  Triangle bit, and the one frame that is published has the bitmask 0.
\<close>

theorem C1_published_bitmask_is_zero:
  "bit (button_bitmask example_bit_index triangle_down) (example_bit_index TRIANGLE) \<and>
   map df_button_down_bitmask
     (published (poll_open_controllers replies_triangle_down one_open_manager)) = [0]"
  by (simp add: button_bitmask_def SET_BUTTON_BIT_def triangle_down_def default_state_def
      poll_open_controllers_def k_max_psmove_controllers_def one_open_manager_def
      started_manager_def startup_def new_ControllerManagerImpl_def poll_controller_def
      getIsOpen_def readDataIn_def replies_triangle_down_def
      publish_controller_data_frame_def make_data_frame_def Let_def)

text \<open>
  C2 as stated fails once the counter wraps. The counter is a 32-bit \<open>int\<close>. A service
  with one controller and the poll interval 0 is called 2147483650 times: the first call
  connects the controller and each later call publishes one frame. The last of the
  2147483649 frames should carry 2147483648; it carries the number after 2147483647 in
  the counter's arithmetic, which is -2147483648.
\<close>

theorem C2_counter_wraps:
  "map_option (length \<circ> published)
     (service_loop (replicate 2147483650 busy_tick) one_controller_service)
     = Some 2147483649 \<and>
   map_option (sint \<circ> df_sequence_num \<circ> last \<circ> published)
     (service_loop (replicate 2147483650 busy_tick) one_controller_service)
     = Some (- 2147483648)"
proof -
  have e: "(2147483650 :: nat) = Suc (Suc 2147483648)" by simp
  from busy_service [of "Suc 2147483648"] obtain s'
    where s': "service_loop (replicate (Suc (Suc 2147483648)) busy_tick) one_controller_service
        = Some s'"
      and b: "busy (Suc 2147483648) s'" by blast
  have run: "service_loop (replicate 2147483650 busy_tick) one_controller_service = Some s'"
    unfolding e by (rule s')
  have len: "length (published s') = 2147483649" using b by (simp add: busy_def)
  have "df_sequence_num (last (published s')) = of_nat 2147483648" by (rule busy_last [OF b])
  then have num: "sint (df_sequence_num (last (published s'))) = - 2147483648" by simp
  show ?thesis unfolding run using len num by simp
qed

text \<open>
  C2, as the code has it. Start a new manager and call \<open>update\<close> any number of times,
  with any clock values, replies, snapshots and open results. Every call returns. The
  sequence numbers of the frames published so far are, in the order of publication and
  whichever controller a frame is for, the values 0, 1, 2, ... of the 32-bit counter: the
  first is 0 and each next one is the previous plus one in the counter's arithmetic. In
  particular the first \<open>2 ^ 31\<close> frames carry exactly the integers 0, 1, 2, ...
\<close>

theorem C2_sequence_numbers_count_up:
  "\<exists>s'. service_loop ticks (snd (startup loaded hid_init_ok (new_ControllerManagerImpl k t0)))
           = Some s' \<and>
        map df_sequence_num (published s') = map of_nat [0..<length (published s')] \<and>
        (\<forall>n<length (published s'). n < 2 ^ 31 \<longrightarrow>
           sint (df_sequence_num (published s' ! n)) = int n)"
proof -
  let ?s0 = "snd (startup loaded hid_init_ok (new_ControllerManagerImpl k t0))"
  have c: "m_config ?s0 = Some loaded" by (simp add: startup_def)
  have o: "seq_ok ?s0" by (simp add: startup_def new_ControllerManagerImpl_def seq_ok_def)
  from service_loop_seq_ok [OF c o, of ticks] obtain s'
    where s': "service_loop ticks ?s0 = Some s'" "seq_ok s'" by blast
  from s'(2) have "map df_sequence_num (published s') = map of_nat [0..<length (published s')]"
    by (simp add: seq_ok_def)
  moreover have "\<forall>n<length (published s'). n < 2 ^ 31 \<longrightarrow>
           sint (df_sequence_num (published s' ! n)) = int n"
    using seq_ok_signed [OF s'(2)] by blast
  ultimately show ?thesis using s'(1) by blast
qed

theorem C2_sequence_numbers_count_up_witness:
  "\<exists>s'. service_loop [busy_tick, busy_tick, busy_tick] one_controller_service = Some s' \<and>
      length (published s') = 2 \<and>
      sint (df_sequence_num (published s' ! 0)) = 0 \<and>
      sint (df_sequence_num (published s' ! 1)) = 1"
proof -
  have r: "replicate (Suc 2) busy_tick = [busy_tick, busy_tick, busy_tick]"
    by (simp add: numeral_2_eq_2)
  from busy_service [of 2] obtain s1
    where s1: "service_loop [busy_tick, busy_tick, busy_tick] one_controller_service = Some s1"
      and b: "busy 2 s1" unfolding r by blast
  have len: "length (published s1) = 2" using b by (simp add: busy_def)
  from C2_sequence_numbers_count_up [of "[busy_tick, busy_tick, busy_tick]" zero_poll_config
      True 1 0] s1
  have all: "\<forall>n<length (published s1). n < 2 ^ 31 \<longrightarrow>
           sint (df_sequence_num (published s1 ! n)) = int n"
    by (simp add: one_controller_service_def)
  have "sint (df_sequence_num (published s1 ! 0)) = 0"
  proof -
    have "(0::nat) < length (published s1)" using len by simp
    moreover have "(0::nat) < 2 ^ 31" by simp
    ultimately have "sint (df_sequence_num (published s1 ! 0)) = int 0" using all by blast
    then show ?thesis by simp
  qed
  moreover have "sint (df_sequence_num (published s1 ! 1)) = 1"
  proof -
    have "(1::nat) < length (published s1)" using len by simp
    moreover have "(1::nat) < 2 ^ 31" by simp
    ultimately have "sint (df_sequence_num (published s1 ! 1)) = int 1" using all by blast
    then show ?thesis by simp
  qed
  ultimately show ?thesis using s1 len by blast
qed

text \<open>
  C3 as stated fails. One controller, open and bound to the device \<open>''A''\<close>; the snapshot
  is \<open>[''B'']\<close> and the transport opens every device. The first pass finds no closed
  controller for \<open>''B''\<close>, reports that there are too many controllers and closes the
  controller of \<open>''A''\<close>; it attempts no open. The second pass, with the same snapshot,
  opens that controller for \<open>''B''\<close> and writes the "connected" line.
\<close>

theorem C3_second_pass_connects:
  "map_option server_log (update_connected_controllers [''B''] opens_all one_open_manager)
     = Some [Log_too_many_controllers, Log_closing_not_listed 0] \<and>
   map_option server_log
     (Option.bind (update_connected_controllers [''B''] opens_all one_open_manager)
        (update_connected_controllers [''B''] opens_all))
     = Some [Log_too_many_controllers, Log_closing_not_listed 0, Log_connected 0]"
  by (simp add: update_connected_controllers_def reconnect_steps_def enumerator_step_def
      remaining_step_def store_temp_def clear_cell_def open_controller_def close_controller_def
      setPSMoveID_def Let_def example_defs)

text \<open>
  C3, as the code has it. Let no controller be shared between two cells, let the transport
  open every device of the snapshot, and let the first pass not report that there are too
  many controllers. Then a second pass with the same snapshot, whatever the transport would
  answer, returns the state the first pass produced: the same array, the same controllers
  and the same log, so it writes no line.
\<close>

theorem C3_clean_pass_is_idempotent:
  assumes d: "distinct (m_controllers s)"
    and first: "update_connected_controllers es open_ok s = Some s1"
    and all_ok: "\<forall>p<length es. open_ok p"
    and no_cap: "Log_too_many_controllers \<notin> set (drop (length (server_log s)) (server_log s1))"
  shows "update_connected_controllers es open_ok' s1 = Some s1"
  by (rule settled_pass_is_identity [OF clean_pass_settles [OF d first all_ok no_cap]])

theorem C3_clean_pass_is_idempotent_witness:
  "distinct (m_controllers (started_manager 2)) \<and>
   update_connected_controllers [''A''] opens_all (started_manager 2) = Some after_first_pass \<and>
   opens_all 0 \<and>
   Log_too_many_controllers
     \<notin> set (drop (length (server_log (started_manager 2))) (server_log after_first_pass)) \<and>
   update_connected_controllers [''A''] opens_none after_first_pass = Some after_first_pass"
proof -
  have a: "distinct (m_controllers (started_manager 2))"
    by (simp add: example_defs)
  have l: "map_option server_log
      (update_connected_controllers [''A''] opens_all (started_manager 2)) = Some [Log_connected 0]"
    by (simp add: update_connected_controllers_def reconnect_steps_def enumerator_step_def
      remaining_step_def store_temp_def clear_cell_def open_controller_def close_controller_def
      setPSMoveID_def Let_def example_defs upt_rec)
  then obtain s1 where b': "update_connected_controllers [''A''] opens_all (started_manager 2) = Some s1"
    by auto
  then have b: "update_connected_controllers [''A''] opens_all (started_manager 2)
      = Some after_first_pass"
    by (simp add: after_first_pass_def)
  have lg: "server_log after_first_pass = [Log_connected 0]" using l b by simp
  have c: "\<forall>p<length [''A'']. opens_all p" by (simp add: opens_all_def)
  have e: "Log_too_many_controllers
     \<notin> set (drop (length (server_log (started_manager 2))) (server_log after_first_pass))"
    using lg by (simp add: example_defs)
  from C3_clean_pass_is_idempotent [OF a b c e, of opens_none] a b e show ?thesis
    by (simp add: opens_all_def)
qed

text \<open>
  C4. Let the pass reach the device \<open>e\<close> after the devices \<open>before\<close>, in the state
  \<open>r\<close>, and let \<open>e\<close> match no open controller left in the member array while no
  closed controller is left there either. Then the enumerator loop ends at \<open>e\<close> with
  the error line written and nothing else changed, whatever devices come \<open>after\<close>; the
  pass ends without an error; the cells of the temporary array that were filled before
  \<open>e\<close> are the first cells of the member array after the pass and, when no controller
  is shared between two cells, the controllers in them are as they were when \<open>e\<close> was
  reached. And no pass, on any input, stores outside the temporary or the member array:
  such a store is the result \<open>None\<close>.
\<close>

theorem C4_capacity_exceeded:
  assumes reach: "enumerate_all open_ok before (start_reconnect s) = Some r"
    and no_open: "find_open_controller_index (rc_controllers r) (rc_heap r) e = None"
    and no_closed: "find_first_closed_controller_index (rc_controllers r) (rc_heap r) = None"
  shows "enumerate_devices open_ok (before @ e # after) (start_reconnect s)
           = Some (r\<lparr>rc_log := rc_log r @ [Log_too_many_controllers]\<rparr>) \<and>
         (\<exists>s' closing.
            update_connected_controllers (before @ e # after) open_ok s = Some s' \<and>
            server_log s' = server_log s @ rc_log r @ Log_too_many_controllers # closing \<and>
            take (length before) (map Some (m_controllers s')) = take (length before) (rc_temp r) \<and>
            (distinct (m_controllers s) \<longrightarrow>
               (\<forall>p<length before. heap s' (m_controllers s' ! p) = rc_heap r (m_controllers s' ! p)))) \<and>
         (\<forall>enumerator' open_ok' s0. update_connected_controllers enumerator' open_ok' s0 \<noteq> None)"
proof (intro conjI)
  let ?k = "length (m_controllers s)"
  let ?rb = "r\<lparr>rc_log := rc_log r @ [Log_too_many_controllers]\<rparr>"
  have inv: "rc_inv ?k (mset (m_controllers s)) r" and n: "rc_new_index r = length before"
    using enumerate_all_inv [OF reach] by simp_all
  have step: "enumerator_step open_ok e r = Some (False, ?rb)"
    using no_open no_closed by (simp add: enumerator_step_def)
  have brk: "enumerate_devices open_ok (e # after) r = Some ?rb" using step by simp
  show whole: "enumerate_devices open_ok (before @ e # after) (start_reconnect s) = Some ?rb"
    using enumerate_all_devices [OF reach, of "e # after"] brk by simp
  have invb: "rc_inv ?k (mset (m_controllers s)) ?rb" using inv by (simp add: rc_inv_def)
  have go: "enumerate_devices open_ok (before @ e # after) (start_reconnect s)
              = enumerate_devices open_ok [] ?rb"
    using whole by simp
  from finish_pass [OF invb go]
  obtain r2 s' where c2: "collect_remaining [0..<?k] ?rb = Some r2"
    and f2: "step_frame ?rb r2"
    and res: "update_connected_controllers (before @ e # after) open_ok s = Some s'"
    and tmp: "rc_temp r2 = map Some (m_controllers s')"
    and hp: "heap s' = rc_heap r2" and lg: "server_log s' = server_log s @ rc_log r2"
    and len': "length (m_controllers s') = length (m_controllers s)"
    by auto
  from f2 obtain closing where cl: "rc_log r2 = rc_log ?rb @ closing"
    by (auto simp: step_frame_def)
  have same: "\<forall>p<length before. rc_temp r2 ! p = rc_temp r ! p"
    using f2 n by (simp add: step_frame_def)
  have len: "length (m_controllers s') = ?k" by (rule len')
  have nk: "length before \<le> ?k"
    using inv n by (simp add: rc_inv_def)
  have tk: "take (length before) (map Some (m_controllers s')) = take (length before) (rc_temp r)"
  proof (rule take_eq_nth)
    show "length before \<le> length (map Some (m_controllers s'))" using nk len by simp
    show "length before \<le> length (rc_temp r)" using nk rc_inv_length_temp [OF inv] by simp
    show "\<forall>p<length before. map Some (m_controllers s') ! p = rc_temp r ! p"
      using same tmp by simp
  qed
  have hp': "heap s' (m_controllers s' ! p) = rc_heap r (m_controllers s' ! p)"
    if d: "distinct (m_controllers s)" and p: "p < length before" for p
  proof -
    let ?a = "m_controllers s' ! p"
    have "p < ?k" using p nk by simp
    then have "rc_temp r2 ! p = Some ?a" using tmp len by simp
    then have "rc_temp r ! p = Some ?a" using same p by simp
    from rc_inv_placed_not_remaining [OF inv d _ this] p n
    have "Some ?a \<notin> set (rc_controllers r)" by simp
    then have "rc_heap r2 ?a = rc_heap r ?a" using f2 by (simp add: step_frame_def)
    then show ?thesis using hp by simp
  qed
  show "\<exists>s' closing.
            update_connected_controllers (before @ e # after) open_ok s = Some s' \<and>
            server_log s' = server_log s @ rc_log r @ Log_too_many_controllers # closing \<and>
            take (length before) (map Some (m_controllers s')) = take (length before) (rc_temp r) \<and>
            (distinct (m_controllers s) \<longrightarrow>
               (\<forall>p<length before. heap s' (m_controllers s' ! p) = rc_heap r (m_controllers s' ! p)))"
    using res lg cl tk hp' by auto
  show "\<forall>enumerator' open_ok' s0. update_connected_controllers enumerator' open_ok' s0 \<noteq> None"
    using reconnect_steps_result by (metis option.distinct(1))
qed

theorem C4_capacity_exceeded_witness:
  "enumerate_all opens_all [] (start_reconnect one_open_manager)
     = Some (start_reconnect one_open_manager) \<and>
   find_open_controller_index (rc_controllers (start_reconnect one_open_manager))
     (rc_heap (start_reconnect one_open_manager)) ''B'' = None \<and>
   find_first_closed_controller_index (rc_controllers (start_reconnect one_open_manager))
     (rc_heap (start_reconnect one_open_manager)) = None \<and>
   enumerate_devices opens_all ([] @ ''B'' # [''C'']) (start_reconnect one_open_manager)
     = Some ((start_reconnect one_open_manager)
          \<lparr>rc_log := rc_log (start_reconnect one_open_manager) @ [Log_too_many_controllers]\<rparr>)"
proof -
  have a: "enumerate_all opens_all [] (start_reconnect one_open_manager)
     = Some (start_reconnect one_open_manager)" by simp
  have b: "find_open_controller_index (rc_controllers (start_reconnect one_open_manager))
     (rc_heap (start_reconnect one_open_manager)) ''B'' = None"
    by (simp add: example_defs)
  have c: "find_first_closed_controller_index (rc_controllers (start_reconnect one_open_manager))
     (rc_heap (start_reconnect one_open_manager)) = None"
    by (simp add: example_defs)
  from C4_capacity_exceeded [OF a b c, of "[''C'']"] a b c show ?thesis by blast
qed

text \<open>
  C5. A pass permutes the pool: it always ends without an error, the array holds the same
  pointers afterwards, each as often as before (so none is lost or created and, the cells
  being pointers and not null, every cell holds one), the array keeps its length, and in
  every controller object only the id, the open flag and the bound identity may differ.
\<close>

theorem C5_pass_permutes_the_pool:
  "\<exists>s'. update_connected_controllers enumerator open_ok s = Some s' \<and>
      mset (m_controllers s') = mset (m_controllers s) \<and>
      length (m_controllers s') = length (m_controllers s) \<and>
      distinct (m_controllers s') = distinct (m_controllers s) \<and>
      (\<forall>a. \<exists>new_id opened binding.
          heap s' a = (heap s a)\<lparr>psmove_id := new_id, is_open := opened,
                                 bound_identity := binding\<rparr>)"
proof -
  from reconnect_steps_result [of enumerator open_ok s]
  obtain r2 placed where steps: "reconnect_steps enumerator open_ok s = Some r2"
    and ms: "mset placed = mset (m_controllers s)"
    and res: "update_connected_controllers enumerator open_ok s =
          Some (s\<lparr>m_controllers := placed, heap := rc_heap r2,
                  server_log := server_log s @ rc_log r2\<rparr>)"
    by blast
  let ?s' = "s\<lparr>m_controllers := placed, heap := rc_heap r2,
                server_log := server_log s @ rc_log r2\<rparr>"
  have len: "length placed = length (m_controllers s)" using ms by (metis size_mset)
  have dist: "distinct placed = distinct (m_controllers s)"
    using ms by (rule mset_eq_imp_distinct_iff)
  have pay: "same_payload (heap s) (rc_heap r2)" by (rule reconnect_steps_payload [OF steps])
  have "\<exists>new_id opened binding.
          heap ?s' a = (heap s a)\<lparr>psmove_id := new_id, is_open := opened,
                                 bound_identity := binding\<rparr>" for a
    using same_payload_fields [OF pay, of a] by auto
  with res ms len dist show ?thesis by auto
qed

text \<open>
  C6. Let no controller be shared between two cells, let every controller carry the index
  of its cell as its id, let the snapshot list every device once, and let the devices bound
  by the open controllers be, up to their order, the devices of the snapshot. Then the pass
  ends without an error; every controller that was open is, after the pass, in the cell
  whose index is the position \<open>p\<close> of its device in the snapshot, and it is the object it
  was with the id \<open>p\<close>: still open, bound to the same device. The pass writes exactly
  one "moved" line for each position of the snapshot whose controller sat in another cell
  (\<open>old_cell\<close>), in the order of the snapshot, and no other line.
\<close>

theorem C6_reordering_keeps_sessions:
  assumes d: "distinct (m_controllers s)"
    and ids: "\<forall>i<length (m_controllers s). psmove_id (heap s (m_controllers s ! i)) = int i"
    and sd: "same_devices es s" and de: "distinct es"
  shows "\<exists>s'. update_connected_controllers es open_ok s = Some s' \<and>
     (\<forall>i<length (m_controllers s). is_open (heap s (m_controllers s ! i)) \<longrightarrow>
        (\<exists>p<length es.
           bound_identity (heap s (m_controllers s ! i)) = Some (es ! p) \<and>
           m_controllers s' ! p = m_controllers s ! i \<and>
           heap s' (m_controllers s ! i) = (heap s (m_controllers s ! i))\<lparr>psmove_id := int p\<rparr>)) \<and>
     server_log s' = server_log s @
        map (\<lambda>p. Log_moved (old_cell s (es ! p)) p)
          (filter (\<lambda>p. old_cell s (es ! p) \<noteq> p) [0..<length es])"
proof -
  let ?tbl = "m_controllers s"
  let ?k = "length ?tbl"
  let ?M = "mset ?tbl"
  note facts = same_devices_facts [OF d sd de]
  have inv0: "rc_inv ?k ?M (start_reconnect s)" by (rule rc_inv_start)
  from finish_pass [OF inv0 refl, of open_ok es]
  obtain r1 r2 s' where r1: "enumerate_devices open_ok es (start_reconnect s) = Some r1"
    and r2: "collect_remaining [0..<?k] r1 = Some r2"
    and f2: "step_frame r1 r2"
    and inv1: "rc_inv ?k ?M r1"
    and res: "update_connected_controllers es open_ok s = Some s'"
    and tmp: "rc_temp r2 = map Some (m_controllers s')"
    and len: "length (m_controllers s') = ?k"
    and hp: "heap s' = rc_heap r2" and lg: "server_log s' = server_log s @ rc_log r2"
    by blast
  from reorder_loop [where rest = es and p = 0 and open_ok = open_ok,
      OF d ids sd de _ _ inv0 reorder_inv_start] r1
  have ri: "reorder_inv s es (length es) r1" by simp
  then have n1: "rc_new_index r1 = length es" and len1: "length (rc_controllers r1) = ?k"
    and cells: "\<forall>i<?k. rc_controllers r1 ! i =
          (if is_open (heap s (?tbl ! i)) \<and> bound_identity (heap s (?tbl ! i)) \<in> Some ` set es
           then None else Some (?tbl ! i))"
    and untouched: "\<forall>i<?k. rc_controllers r1 ! i \<noteq> None \<longrightarrow>
          rc_heap r1 (?tbl ! i) = heap s (?tbl ! i)"
    and placed: "\<forall>q<length es. rc_temp r1 ! q = Some (?tbl ! old_cell s (es ! q)) \<and>
        rc_heap r1 (?tbl ! old_cell s (es ! q))
          = (heap s (?tbl ! old_cell s (es ! q)))\<lparr>psmove_id := int q\<rparr>"
    and lg1: "rc_log r1 = moved_lines s es (length es)"
    unfolding reorder_inv_def by simp_all
  have le: "length es \<le> ?k" using inv1 n1 by (simp add: rc_inv_def)
  have rc1: "rest_closed r1"
    unfolding rest_closed_def
  proof (intro allI impI)
    fix a assume "Some a \<in> set (rc_controllers r1)"
    then obtain j where j: "j < ?k" "rc_controllers r1 ! j = Some a"
      using len1 by (metis in_set_conv_nth)
    with cells have a: "a = ?tbl ! j"
      and no: "\<not> (is_open (heap s (?tbl ! j)) \<and>
          bound_identity (heap s (?tbl ! j)) \<in> Some ` set es)"
      by (auto split: if_splits)
    have "\<not> is_open (heap s (?tbl ! j))"
    proof
      assume o: "is_open (heap s (?tbl ! j))"
      from facts(1) [OF j(1) o] have "bound_identity (heap s (?tbl ! j)) \<in> Some ` set es"
        by auto
      with no o show False by simp
    qed
    moreover have "rc_heap r1 (?tbl ! j) = heap s (?tbl ! j)" using untouched j by simp
    ultimately show "\<not> is_open (rc_heap r1 a)" using a by simp
  qed
  have "\<forall>i\<in>set [0..<?k]. i < length (rc_controllers r1)" using len1 by simp
  from collect_remaining_closed [OF r2 rc1 this] lg1
  have lg2: "rc_log r2 = moved_lines s es (length es)" by simp
  have sessions: "\<exists>p<length es.
           bound_identity (heap s (?tbl ! i)) = Some (es ! p) \<and>
           m_controllers s' ! p = ?tbl ! i \<and>
           heap s' (?tbl ! i) = (heap s (?tbl ! i))\<lparr>psmove_id := int p\<rparr>"
    if i: "i < ?k" and o: "is_open (heap s (?tbl ! i))" for i
  proof -
    from facts(1) [OF i o] obtain p where p: "p < length es"
      "bound_identity (heap s (?tbl ! i)) = Some (es ! p)" by blast
    from facts(3) [OF i o p(2) p(1)] have oc: "old_cell s (es ! p) = i" .
    from placed p(1) oc have t1: "rc_temp r1 ! p = Some (?tbl ! i)"
      and h1: "rc_heap r1 (?tbl ! i) = (heap s (?tbl ! i))\<lparr>psmove_id := int p\<rparr>" by auto
    have "p < rc_new_index r1" using p(1) n1 by simp
    from cell_kept [OF f2 inv1 d this t1]
    have t2: "rc_temp r2 ! p = Some (?tbl ! i)" and h2: "rc_heap r2 (?tbl ! i) = rc_heap r1 (?tbl ! i)"
      by simp_all
    have "p < ?k" using p(1) le by simp
    then have "m_controllers s' ! p = ?tbl ! i" using t2 tmp len by simp
    with p h1 h2 hp show ?thesis by auto
  qed
  show ?thesis
    using res sessions lg lg2 by (auto simp: moved_lines_def)
qed

theorem C6_reordering_keeps_sessions_witness:
  "distinct (m_controllers two_open_manager) \<and>
   length (m_controllers two_open_manager) = 2 \<and>
   psmove_id (heap two_open_manager (m_controllers two_open_manager ! 0)) = 0 \<and>
   psmove_id (heap two_open_manager (m_controllers two_open_manager ! 1)) = 1 \<and>
   same_devices [''B'', ''A''] two_open_manager \<and>
   distinct [''B'', ''A''] \<and>
   (\<exists>s'. update_connected_controllers [''B'', ''A''] opens_none two_open_manager = Some s' \<and>
      (\<exists>p<2. m_controllers s' ! p = m_controllers two_open_manager ! 0 \<and>
          heap s' (m_controllers two_open_manager ! 0)
            = (heap two_open_manager (m_controllers two_open_manager ! 0))\<lparr>psmove_id := int p\<rparr>) \<and>
      server_log s' = [Log_moved 1 0, Log_moved 0 1])"
proof -
  have m: "m_controllers two_open_manager = [0, 1]"
    by (simp add: two_open_manager_def started_manager_def startup_def
        new_ControllerManagerImpl_def upt_rec)
  have h: "heap two_open_manager a = (new_PSMoveController (int a))
        \<lparr>is_open := True, bound_identity := Some (if a = 0 then ''A'' else ''B'')\<rparr>" for a
    by (simp add: two_open_manager_def)
  have l0: "server_log two_open_manager = []"
    by (simp add: two_open_manager_def started_manager_def startup_def
        new_ControllerManagerImpl_def)
  have a: "distinct (m_controllers two_open_manager)" by (simp add: m)
  have l: "length (m_controllers two_open_manager) = 2" by (simp add: m)
  have p0: "psmove_id (heap two_open_manager (m_controllers two_open_manager ! 0)) = 0"
    by (simp add: m h new_PSMoveController_def)
  have p1: "psmove_id (heap two_open_manager (m_controllers two_open_manager ! 1)) = 1"
    by (simp add: m h new_PSMoveController_def)
  have b: "\<forall>i<length (m_controllers two_open_manager).
      psmove_id (heap two_open_manager (m_controllers two_open_manager ! i)) = int i"
    using p0 p1 l by (auto simp: less_Suc_eq numeral_2_eq_2)
  have c: "same_devices [''B'', ''A''] two_open_manager"
    by (simp add: same_devices_def m h)
  have e: "distinct [''B'', ''A'']" by simp
  have oB: "old_cell two_open_manager ''B'' = 1"
    by (simp add: old_cell_def find_open_controller_index_def m h getIsOpen_def
        matchesDeviceEnumerator_def upt_rec)
  have oA: "old_cell two_open_manager ''A'' = 0"
    by (simp add: old_cell_def find_open_controller_index_def m h getIsOpen_def
        matchesDeviceEnumerator_def upt_rec)
  have o0: "is_open (heap two_open_manager (m_controllers two_open_manager ! 0))"
    by (simp add: h)
  from C6_reordering_keeps_sessions [OF a b c e, of opens_none]
  obtain s' where s': "update_connected_controllers [''B'', ''A''] opens_none two_open_manager = Some s'"
    and ss: "\<forall>i<length (m_controllers two_open_manager).
        is_open (heap two_open_manager (m_controllers two_open_manager ! i)) \<longrightarrow>
        (\<exists>p<length [''B'', ''A''].
           bound_identity (heap two_open_manager (m_controllers two_open_manager ! i))
             = Some ([''B'', ''A''] ! p) \<and>
           m_controllers s' ! p = m_controllers two_open_manager ! i \<and>
           heap s' (m_controllers two_open_manager ! i)
             = (heap two_open_manager (m_controllers two_open_manager ! i))\<lparr>psmove_id := int p\<rparr>)"
    and lg: "server_log s' = server_log two_open_manager @
        map (\<lambda>p. Log_moved (old_cell two_open_manager ([''B'', ''A''] ! p)) p)
          (filter (\<lambda>p. old_cell two_open_manager ([''B'', ''A''] ! p) \<noteq> p) [0..<length [''B'', ''A'']])"
    by blast
  have lg': "server_log s' = [Log_moved 1 0, Log_moved 0 1]"
    using lg l0 oA oB by (simp add: upt_rec)
  have z: "0 < length (m_controllers two_open_manager)" using l by simp
  from ss z o0 obtain p where p: "p < length [''B'', ''A'']"
    "m_controllers s' ! p = m_controllers two_open_manager ! 0"
    "heap s' (m_controllers two_open_manager ! 0)
       = (heap two_open_manager (m_controllers two_open_manager ! 0))\<lparr>psmove_id := int p\<rparr>"
    by blast
  from p(1) have "p < 2" by simp
  with p(2,3) have "\<exists>p<2. m_controllers s' ! p = m_controllers two_open_manager ! 0 \<and>
          heap s' (m_controllers two_open_manager ! 0)
            = (heap two_open_manager (m_controllers two_open_manager ! 0))\<lparr>psmove_id := int p\<rparr>"
    by blast
  with a l p0 p1 c e s' lg' show ?thesis by blast
qed

text \<open>
  C7, as the code has it. Let the pass reach the device \<open>e\<close> after the devices
  \<open>before\<close>, let \<open>e\<close> match no open controller left in the member array, let \<open>i\<close>
  be the first cell with a closed controller, and let the transport fail to open the
  device. Then the controller of cell \<open>i\<close> stays closed, it is stored at the position
  of \<open>e\<close> in the temporary array with that position as its id, the next device gets
  the next position, and the iteration writes nothing to the log. When no controller is
  shared between two cells, the controller is still closed and at that position of the
  member array at the end of the pass.
\<close>

theorem C7_failed_open_is_silent:
  assumes reach: "enumerate_all open_ok before (start_reconnect s) = Some r"
    and no_open: "find_open_controller_index (rc_controllers r) (rc_heap r) e = None"
    and closed: "find_first_closed_controller_index (rc_controllers r) (rc_heap r) = Some i"
    and fails: "\<not> open_ok (length before)"
  shows "\<exists>c r'. rc_controllers r ! i = Some c \<and>
      enumerator_step open_ok e r = Some (True, r') \<and>
      enumerate_devices open_ok (before @ e # after) (start_reconnect s)
        = enumerate_devices open_ok after r' \<and>
      length before < length (rc_temp r) \<and>
      rc_temp r' = (rc_temp r)[length before := Some c] \<and>
      rc_controllers r' = (rc_controllers r)[i := None] \<and>
      rc_new_index r' = length before + 1 \<and>
      rc_heap r' = (rc_heap r)(c := (rc_heap r c)\<lparr>psmove_id := int (length before)\<rparr>) \<and>
      \<not> is_open (rc_heap r' c) \<and>
      rc_log r' = rc_log r \<and>
      (\<exists>s'. update_connected_controllers (before @ e # after) open_ok s = Some s' \<and>
         (distinct (m_controllers s) \<longrightarrow>
            m_controllers s' ! length before = c \<and>
            heap s' c = (rc_heap r c)\<lparr>psmove_id := int (length before)\<rparr> \<and>
            \<not> is_open (heap s' c)))"
proof -
  let ?k = "length (m_controllers s)"
  let ?p = "length before"
  have inv: "rc_inv ?k (mset (m_controllers s)) r" and n: "rc_new_index r = ?p"
    using enumerate_all_inv [OF reach] by simp_all
  from find_closed_SomeD [OF closed] obtain c where i: "i < length (rc_controllers r)"
    and c: "rc_controllers r ! i = Some c" and cl: "\<not> getIsOpen (rc_heap r c)" by blast
  have lt: "?p < length (rc_temp r)"
    using rc_inv_in_bounds [OF inv i c] rc_inv_length_temp [OF inv] n by simp
  let ?r' = "r\<lparr>rc_temp := (rc_temp r)[?p := Some c],
               rc_controllers := (rc_controllers r)[i := None],
               rc_heap := (rc_heap r)(c := (rc_heap r c)\<lparr>psmove_id := int ?p\<rparr>),
               rc_log := rc_log r,
               rc_new_index := ?p + 1\<rparr>"
  have step: "enumerator_step open_ok e r = Some (True, ?r')"
    using no_open closed c i lt n fails
    by (simp add: enumerator_step_def store_temp_def clear_cell_def Let_def
          open_controller_def setPSMoveID_def)
  have go: "enumerate_devices open_ok (before @ e # after) (start_reconnect s)
        = enumerate_devices open_ok after ?r'"
    using enumerate_all_devices [OF reach, of "e # after"] step by simp
  have shut: "\<not> is_open (rc_heap ?r' c)" using cl by (simp add: getIsOpen_def)
  from enumerator_step_inv [OF inv, of open_ok e] step
  have inv': "rc_inv ?k (mset (m_controllers s)) ?r'" by simp
  from finish_pass [OF inv' go]
  obtain r1 r2 s' where f1: "step_frame ?r' r1" and f2: "step_frame r1 r2"
    and res: "update_connected_controllers (before @ e # after) open_ok s = Some s'"
    and tmp: "rc_temp r2 = map Some (m_controllers s')"
    and len: "length (m_controllers s') = ?k"
    and hp: "heap s' = rc_heap r2"
    by auto
  have f: "step_frame ?r' r2" by (rule step_frame_trans [OF f1 f2])
  have pk: "?p < ?k" using lt rc_inv_length_temp [OF inv] by simp
  have at_p: "rc_temp r2 ! ?p = Some c" using f lt by (simp add: step_frame_def)
  then have tbl: "m_controllers s' ! ?p = c" using tmp pk len by simp
  have keep: "heap s' c = (rc_heap r c)\<lparr>psmove_id := int ?p\<rparr>"
    if d: "distinct (m_controllers s)"
  proof -
    have "rc_temp ?r' ! ?p = Some c" using lt by simp
    from rc_inv_placed_not_remaining [OF inv' d _ this]
    have "Some c \<notin> set (rc_controllers ?r')" by simp
    then have "rc_heap r2 c = rc_heap ?r' c" using f by (simp add: step_frame_def)
    then show ?thesis using hp by simp
  qed
  have "distinct (m_controllers s) \<longrightarrow>
            m_controllers s' ! ?p = c \<and>
            heap s' c = (rc_heap r c)\<lparr>psmove_id := int ?p\<rparr> \<and>
            \<not> is_open (heap s' c)"
    using tbl keep cl by (simp add: getIsOpen_def)
  with res have last: "\<exists>s'. update_connected_controllers (before @ e # after) open_ok s = Some s' \<and>
         (distinct (m_controllers s) \<longrightarrow>
            m_controllers s' ! ?p = c \<and>
            heap s' c = (rc_heap r c)\<lparr>psmove_id := int ?p\<rparr> \<and>
            \<not> is_open (heap s' c))" by blast
  show ?thesis
    apply (rule exI [of _ c])
    apply (rule exI [of _ ?r'])
    using c step go lt shut last by simp
qed

theorem C7_failed_open_is_silent_witness:
  "enumerate_all opens_none [] (start_reconnect (started_manager 1))
     = Some (start_reconnect (started_manager 1)) \<and>
   find_open_controller_index (rc_controllers (start_reconnect (started_manager 1)))
     (rc_heap (start_reconnect (started_manager 1))) ''A'' = None \<and>
   find_first_closed_controller_index (rc_controllers (start_reconnect (started_manager 1)))
     (rc_heap (start_reconnect (started_manager 1))) = Some 0 \<and>
   \<not> opens_none (length ([] :: DeviceIdentity list)) \<and>
   (\<exists>c r'. enumerator_step opens_none ''A'' (start_reconnect (started_manager 1)) = Some (True, r') \<and>
      \<not> is_open (rc_heap r' c) \<and> rc_temp r' = (rc_temp (start_reconnect (started_manager 1)))[0 := Some c] \<and>
      rc_new_index r' = 1 \<and> rc_log r' = rc_log (start_reconnect (started_manager 1)))"
proof -
  have a: "enumerate_all opens_none [] (start_reconnect (started_manager 1))
     = Some (start_reconnect (started_manager 1))" by simp
  have b: "find_open_controller_index (rc_controllers (start_reconnect (started_manager 1)))
     (rc_heap (start_reconnect (started_manager 1))) ''A'' = None"
    by (simp add: example_defs)
  have c: "find_first_closed_controller_index (rc_controllers (start_reconnect (started_manager 1)))
     (rc_heap (start_reconnect (started_manager 1))) = Some 0"
    by (simp add: example_defs)
  have d: "\<not> opens_none (length ([] :: DeviceIdentity list))" by (simp add: opens_none_def)
  from C7_failed_open_is_silent [OF a b c d, of "[]"] a b c d show ?thesis
    by (auto simp del: enumerate_all.simps)
qed

text \<open>
  C7 as stated asks for a connect-failure notification. One closed controller, one
  enumerated device, the transport fails: the pass writes no line at all.
\<close>

theorem C7_no_connect_failure_notification:
  "map_option server_log (update_connected_controllers [''A''] opens_none (started_manager 1))
     = Some []"
  by (simp add: update_connected_controllers_def reconnect_steps_def enumerator_step_def
      remaining_step_def store_temp_def clear_cell_def open_controller_def setPSMoveID_def
      Let_def example_defs)

text \<open>
  C8. Let no controller be shared between two cells, let every controller carry the index
  of its cell as its id, and let the read of the open controller of cell \<open>i\<close> fail in a
  poll pass. After the pass that controller is closed and bound to no device; no frame
  published in the pass carries the id \<open>i\<close>; the member array is unchanged; and every
  other controller of the array keeps its id, keeps its open flag and its bound identity
  unless its own read fails, and is exactly what the pass would have made of it had the
  read of cell \<open>i\<close> delivered no data.
\<close>

theorem C8_read_failure_is_isolated:
  assumes d: "distinct (m_controllers s)"
    and ids: "\<forall>j<length (m_controllers s). psmove_id (heap s (m_controllers s ! j)) = int j"
    and i: "i < length (m_controllers s)"
    and op: "is_open (heap s (m_controllers s ! i))"
    and fail: "replies i = Failure"
  shows "\<not> is_open (heap (poll_open_controllers replies s) (m_controllers s ! i)) \<and>
    bound_identity (heap (poll_open_controllers replies s) (m_controllers s ! i)) = None \<and>
    (\<exists>new. published (poll_open_controllers replies s) = published s @ new \<and>
       (\<forall>f\<in>set new. df_psmove_id f \<noteq> int i)) \<and>
    m_controllers (poll_open_controllers replies s) = m_controllers s \<and>
    (\<forall>j<length (m_controllers s). j \<noteq> i \<longrightarrow>
       psmove_id (heap (poll_open_controllers replies s) (m_controllers s ! j))
         = psmove_id (heap s (m_controllers s ! j)) \<and>
       (replies j \<noteq> Failure \<longrightarrow>
          is_open (heap (poll_open_controllers replies s) (m_controllers s ! j))
            = is_open (heap s (m_controllers s ! j)) \<and>
          bound_identity (heap (poll_open_controllers replies s) (m_controllers s ! j))
            = bound_identity (heap s (m_controllers s ! j))) \<and>
       heap (poll_open_controllers replies s) (m_controllers s ! j)
         = heap (poll_open_controllers (replies(i := NoData)) s) (m_controllers s ! j))"
proof (intro conjI allI impI)
  let ?s' = "poll_open_controllers replies s"
  let ?tbl = "m_controllers s"
  have at_i: "heap ?s' (?tbl ! i) = poll_result Failure (heap s (?tbl ! i))"
    using poll_at [OF d i, of replies] fail by simp
  show "\<not> is_open (heap ?s' (?tbl ! i))" using at_i poll_result_Failure by simp
  show "bound_identity (heap ?s' (?tbl ! i)) = None" using at_i poll_result_Failure op by simp
  show "m_controllers ?s' = ?tbl" by (rule poll_controllers)
  show "\<exists>new. published ?s' = published s @ new \<and> (\<forall>f\<in>set new. df_psmove_id f \<noteq> int i)"
  proof -
    from fold_poll_published [of replies "[0..<length ?tbl]" s]
    obtain new where new: "published ?s' = published s @ new"
      "\<forall>f\<in>set new. \<exists>j\<in>set [0..<length ?tbl]. df_psmove_id f = psmove_id (heap s (?tbl ! j)) \<and>
        is_open (heap s (?tbl ! j)) \<and> replies j \<noteq> Failure \<and> replies j \<noteq> NoData"
      unfolding poll_open_controllers_def k_max_psmove_controllers_def by blast
    have "df_psmove_id f \<noteq> int i" if "f \<in> set new" for f
    proof -
      from new(2) that obtain j where j: "j < length ?tbl"
        "df_psmove_id f = psmove_id (heap s (?tbl ! j))" "replies j \<noteq> Failure"
        by auto
      from j(3) fail have "j \<noteq> i" by auto
      moreover have "df_psmove_id f = int j" using j(1,2) ids by simp
      ultimately show ?thesis by simp
    qed
    with new(1) show ?thesis by blast
  qed
next
  fix j assume j: "j < length (m_controllers s)" and ne: "j \<noteq> i"
  let ?s' = "poll_open_controllers replies s"
  let ?tbl = "m_controllers s"
  have at_j: "heap ?s' (?tbl ! j) = poll_result (replies j) (heap s (?tbl ! j))"
    by (rule poll_at [OF d j])
  show "psmove_id (heap ?s' (?tbl ! j)) = psmove_id (heap s (?tbl ! j))"
    using at_j by (simp add: poll_result_psmove_id)
  show "heap ?s' (?tbl ! j) = heap (poll_open_controllers (replies(i := NoData)) s) (?tbl ! j)"
    using at_j poll_at [OF d j, of "replies(i := NoData)"] ne by simp
  {
    assume "replies j \<noteq> Failure"
    from poll_result_keeps [OF this, of "heap s (?tbl ! j)"] at_j
    show "is_open (heap ?s' (?tbl ! j)) = is_open (heap s (?tbl ! j))"
      and "bound_identity (heap ?s' (?tbl ! j)) = bound_identity (heap s (?tbl ! j))"
      by simp_all
  }
qed

theorem C8_read_failure_is_isolated_witness:
  "distinct (m_controllers two_open_manager) \<and>
   length (m_controllers two_open_manager) = 2 \<and>
   psmove_id (heap two_open_manager (m_controllers two_open_manager ! 0)) = 0 \<and>
   psmove_id (heap two_open_manager (m_controllers two_open_manager ! 1)) = 1 \<and>
   0 < length (m_controllers two_open_manager) \<and>
   is_open (heap two_open_manager (m_controllers two_open_manager ! 0)) \<and>
   replies_first_fails 0 = Failure \<and>
   \<not> is_open (heap (poll_open_controllers replies_first_fails two_open_manager)
                 (m_controllers two_open_manager ! 0)) \<and>
   (\<exists>new. published (poll_open_controllers replies_first_fails two_open_manager)
            = published two_open_manager @ new \<and>
          (\<forall>f\<in>set new. df_psmove_id f \<noteq> int 0)) \<and>
   is_open (heap (poll_open_controllers replies_first_fails two_open_manager)
              (m_controllers two_open_manager ! 1))"
proof -
  have m: "m_controllers two_open_manager = [0..<2]"
    by (simp add: two_open_manager_def started_manager_def startup_def
        new_ControllerManagerImpl_def)
  have h: "heap two_open_manager a = (new_PSMoveController (int a))
        \<lparr>is_open := True, bound_identity := Some (if a = 0 then ''A'' else ''B'')\<rparr>" for a
    by (simp add: two_open_manager_def)
  have a: "distinct (m_controllers two_open_manager)" by (simp add: m)
  have b: "\<forall>j<length (m_controllers two_open_manager).
      psmove_id (heap two_open_manager (m_controllers two_open_manager ! j)) = int j"
    by (simp add: m h new_PSMoveController_def)
  have c: "0 < length (m_controllers two_open_manager)" by (simp add: m)
  have e: "is_open (heap two_open_manager (m_controllers two_open_manager ! 0))"
    by (simp add: h)
  have f: "replies_first_fails 0 = Failure" by (simp add: replies_first_fails_def)
  have g: "replies_first_fails 1 \<noteq> Failure" by (simp add: replies_first_fails_def)
  have o1: "is_open (heap two_open_manager (m_controllers two_open_manager ! 1))"
    by (simp add: h)
  have one: "(1::nat) < length (m_controllers two_open_manager)" by (simp add: m)
  note t = C8_read_failure_is_isolated [where s = two_open_manager and i = 0
      and replies = replies_first_fails, OF a b c e f]
  from t have t1: "\<not> is_open (heap (poll_open_controllers replies_first_fails two_open_manager)
                 (m_controllers two_open_manager ! 0))" by blast
  from t have t2: "\<exists>new. published (poll_open_controllers replies_first_fails two_open_manager)
            = published two_open_manager @ new \<and>
          (\<forall>f\<in>set new. df_psmove_id f \<noteq> int 0)" by blast
  from t have "\<forall>j<length (m_controllers two_open_manager). j \<noteq> 0 \<longrightarrow>
       (replies_first_fails j \<noteq> Failure \<longrightarrow>
          is_open (heap (poll_open_controllers replies_first_fails two_open_manager)
                     (m_controllers two_open_manager ! j))
            = is_open (heap two_open_manager (m_controllers two_open_manager ! j)))"
    by blast
  with one g o1 have t3: "is_open (heap (poll_open_controllers replies_first_fails two_open_manager)
              (m_controllers two_open_manager ! 1))" by simp
  have l: "length (m_controllers two_open_manager) = 2" by (simp add: m)
  have p0: "psmove_id (heap two_open_manager (m_controllers two_open_manager ! 0)) = 0"
    by (simp add: m h new_PSMoveController_def)
  have p1: "psmove_id (heap two_open_manager (m_controllers two_open_manager ! 1)) = 1"
    by (simp add: m h new_PSMoveController_def)
  from a l p0 p1 c e f t1 t2 t3 show ?thesis by blast
qed

text \<open>
  C9 as stated fails when an interval is not positive and the clock has gone back. The
  poll interval is 0, both time stamps are 1000 microseconds and the clock says 500: the
  time since the last poll is negative, so it is not at least the interval, yet
  \<open>update\<close> rounds it to 0 whole milliseconds, runs the poll pass (one frame is
  published) and sets the last poll time to 500.
\<close>

theorem C9_poll_runs_before_interval_elapsed:
  "\<not> poll_interval_elapsed zero_poll_config 500 stamped_manager \<and>
   map_option m_last_poll_time
     (update 500 replies_triangle_down [''A''] opens_all stamped_manager) = Some 500 \<and>
   map_option (length \<circ> published)
     (update 500 replies_triangle_down [''A''] opens_all stamped_manager) = Some 1"
  by (simp add: poll_interval_elapsed_def zero_poll_config_def stamped_manager_def
      update_def total_milliseconds_def Let_def poll_open_controllers_def poll_controller_def
      readDataIn_def publish_controller_data_frame_def replies_triangle_down_def
      example_defs)

text \<open>
  C9, as the code has it. Let each interval be positive or the clock not be earlier than
  the stored time stamp of its pass. Then a call of \<open>update\<close> on a started manager
  returns; the poll pass runs exactly when the time from the last poll time to \<open>now\<close>
  is at least the poll interval, and then the last poll time is \<open>now\<close>; the reconnect
  pass runs exactly when the time from the last reconnect time (which the poll pass does
  not touch) to \<open>now\<close> is at least the reconnect interval, and then the last reconnect
  time is \<open>now\<close>. The four combinations are spelled out: neither pass (the state is
  unchanged), the poll pass alone, the reconnect pass alone, the poll pass and then the
  reconnect pass. A time stamp whose pass does not run keeps its value.
\<close>

theorem C9_update_runs_what_is_due:
  assumes cfg: "m_config s = Some config"
    and poll_clock: "0 < controller_poll_interval config \<or> m_last_poll_time s \<le> now"
    and reconnect_clock:
      "0 < controller_reconnect_interval config \<or> m_last_reconnect_time s \<le> now"
  shows "\<exists>s'. update now replies enumerator open_ok s = Some s' \<and>
     m_last_poll_time s' =
       (if poll_interval_elapsed config now s then now else m_last_poll_time s) \<and>
     m_last_reconnect_time s' =
       (if reconnect_interval_elapsed config now s then now else m_last_reconnect_time s) \<and>
     (\<not> poll_interval_elapsed config now s \<and> \<not> reconnect_interval_elapsed config now s \<longrightarrow>
        s' = s) \<and>
     (poll_interval_elapsed config now s \<and> \<not> reconnect_interval_elapsed config now s \<longrightarrow>
        s' = stamp_poll now (poll_open_controllers replies s)) \<and>
     (\<not> poll_interval_elapsed config now s \<and> reconnect_interval_elapsed config now s \<longrightarrow>
        Some s' = map_option (stamp_reconnect now)
                    (update_connected_controllers enumerator open_ok s)) \<and>
     (poll_interval_elapsed config now s \<and> reconnect_interval_elapsed config now s \<longrightarrow>
        Some s' = map_option (stamp_reconnect now)
                    (update_connected_controllers enumerator open_ok
                       (stamp_poll now (poll_open_controllers replies s))))"
  using update_by_guards [OF cfg, of now replies enumerator open_ok]
  unfolding poll_guard_elapsed [OF poll_clock] reconnect_guard_elapsed [OF reconnect_clock]
  .

theorem C9_update_runs_what_is_due_witness:
  "m_config (started_manager 1) = Some example_config \<and>
   (0 < controller_poll_interval example_config \<or> m_last_poll_time (started_manager 1) \<le> 5000) \<and>
   (0 < controller_reconnect_interval example_config \<or>
      m_last_reconnect_time (started_manager 1) \<le> 5000) \<and>
   poll_interval_elapsed example_config 5000 (started_manager 1) \<and>
   \<not> reconnect_interval_elapsed example_config 5000 (started_manager 1) \<and>
   (\<exists>s'. update 5000 replies_triangle_down [''A''] opens_all (started_manager 1) = Some s' \<and>
      m_last_poll_time s' = 5000 \<and> m_last_reconnect_time s' = 0 \<and>
      s' = stamp_poll 5000 (poll_open_controllers replies_triangle_down (started_manager 1)))"
proof -
  have a: "m_config (started_manager 1) = Some example_config"
    by (simp add: started_manager_def startup_def)
  have p: "0 < controller_poll_interval example_config \<or> m_last_poll_time (started_manager 1) \<le> 5000"
    by (simp add: example_config_def k_default_controller_poll_interval_def)
  have r: "0 < controller_reconnect_interval example_config \<or>
      m_last_reconnect_time (started_manager 1) \<le> 5000"
    by (simp add: example_config_def k_default_controller_reconnect_interval_def)
  have b: "poll_interval_elapsed example_config 5000 (started_manager 1)"
    by (simp add: poll_interval_elapsed_def example_config_def
        k_default_controller_poll_interval_def
        started_manager_def startup_def new_ControllerManagerImpl_def)
  have c: "\<not> reconnect_interval_elapsed example_config 5000 (started_manager 1)"
    by (simp add: reconnect_interval_elapsed_def example_config_def
        k_default_controller_reconnect_interval_def
        started_manager_def startup_def new_ControllerManagerImpl_def)
  have d: "m_last_reconnect_time (started_manager 1) = 0"
    by (simp add: started_manager_def startup_def new_ControllerManagerImpl_def)
  note t = C9_update_runs_what_is_due [where s = "started_manager 1" and now = 5000
      and replies = replies_triangle_down and enumerator = "[''A'']" and open_ok = opens_all,
      OF a p r]
  from t b c d have "\<exists>s'. update 5000 replies_triangle_down [''A''] opens_all (started_manager 1) = Some s' \<and>
      m_last_poll_time s' = 5000 \<and> m_last_reconnect_time s' = 0 \<and>
      s' = stamp_poll 5000 (poll_open_controllers replies_triangle_down (started_manager 1))"
    by auto
  with a p r b c show ?thesis by blast
qed

text \<open>
  C10. \<open>setControllerRumble\<close> and \<open>resetPose\<close>, of the implementation and of the
  public class, return false and leave the whole manager state as it is.
\<close>

theorem C10_rumble_and_reset_do_nothing:
  "setControllerRumble for_psmove_id rumble_amount s = (False, s) \<and>
   resetPose for_psmove_id s = (False, s) \<and>
   ControllerManager_setControllerRumble for_psmove_id rumble_amount s = (False, s) \<and>
   ControllerManager_resetPose for_psmove_id s = (False, s)"
  by (simp add: setControllerRumble_def resetPose_def
      ControllerManager_setControllerRumble_def ControllerManager_resetPose_def)

end
